theory Spec2Isabelle
  imports Main
begin

section \<open>Strings\<close>

text \<open>
  A JavaScript string is a sequence of UTF-16 code units and \<open>length\<close>, \<open>slice\<close>,
  \<open>trim\<close>, \<open>split\<close> and the regular expressions of the server all work on code units.
  The model takes a string as a \<open>char list\<close>, one \<open>char\<close> per code unit, and so covers
  the texts whose code units are below 256 (ASCII and Latin-1).
\<close>

definition is_js_space :: "char \<Rightarrow> bool" where
  \<comment> \<open>the white space and line terminators that \<open>String.prototype.trim\<close> strips, below 256\<close>
  "is_js_space c \<longleftrightarrow> (of_char c :: nat) \<in> {9, 10, 11, 12, 13, 32, 160}"

definition trim :: "string \<Rightarrow> string" where
  "trim s = rev (dropWhile is_js_space (rev (dropWhile is_js_space s)))"

definition is_newline :: "char \<Rightarrow> bool" where
  "is_newline c \<longleftrightarrow> c = CHR 0x0A"

text \<open>
  \<open>s.split(/X+/)\<close> for a one-character class \<open>X\<close>: the pieces between the maximal runs
  of separator characters, with an empty piece before a leading run and after a trailing
  one, and \<open>[""]\<close> for the empty string.
\<close>

function split_runs :: "(char \<Rightarrow> bool) \<Rightarrow> string \<Rightarrow> string list" where
  "split_runs sep s =
     (if dropWhile (\<lambda>c. \<not> sep c) s = [] then [s]
      else takeWhile (\<lambda>c. \<not> sep c) s
             # split_runs sep (dropWhile sep (dropWhile (\<lambda>c. \<not> sep c) s)))"
  by pat_completeness auto
termination
proof (relation "measure (\<lambda>(sep, s). length s)", goal_cases)
  case 1
  show ?case by simp
next
  case (2 sep s)
  let ?r = "dropWhile (\<lambda>c. \<not> sep c) s"
  from 2 obtain c cs where r: "?r = c # cs" by (cases ?r) auto
  then have "sep c" using hd_dropWhile [of "\<lambda>c. \<not> sep c" s] by auto
  then have "length (dropWhile sep ?r) \<le> length cs"
    using r by (simp add: length_dropWhile_le)
  moreover have "length ?r \<le> length s" by (rule length_dropWhile_le)
  ultimately show ?case using r by simp
qed

declare split_runs.simps [simp del]

text \<open>Template literals render a number in decimal.\<close>

definition digit_char :: "nat \<Rightarrow> char" where
  "digit_char d = char_of (48 + d)"

fun string_of_nat :: "nat \<Rightarrow> string" where
  "string_of_nat n =
     (if n < 10 then [digit_char n] else string_of_nat (n div 10) @ [digit_char (n mod 10)])"

declare string_of_nat.simps [simp del]


section \<open>The chunker of \<open>POST /api/upload\<close>\<close>

text \<open>
  The handler pushes objects \<open>{ id, text }\<close>; the \<open>id\<close> is the template
  \<open>`${Date.now()}_${chunkId++}`\<close>.
\<close>

record chunk =
  chunk_id :: string
  chunk_text :: string

definition template_id :: "nat \<Rightarrow> nat \<Rightarrow> string" where
  "template_id now k = string_of_nat now @ ''_'' @ string_of_nat k"

text \<open>
  \<open>Date.now()\<close> is read once for every chunk pushed. The clock is a parameter:
  \<open>clock k\<close> is the reading taken while the chunk with counter \<open>k\<close> is pushed. The loop
  state is the array \<open>chunks\<close> and the counter \<open>chunkId\<close>.
\<close>

definition push_chunk :: "(nat \<Rightarrow> nat) \<Rightarrow> chunk list \<times> nat \<Rightarrow> string \<Rightarrow> chunk list \<times> nat" where
  "push_chunk clock st t =
     (case st of (chunks, chunkId) \<Rightarrow>
        (chunks @ [\<lparr>chunk_id = template_id (clock chunkId) chunkId, chunk_text = t\<rparr>],
         chunkId + 1))"

text \<open>\<open>for (let i = 0; i < p.length; i += 800) ... p.slice(i, i + 800)\<close>\<close>

function slices :: "nat \<Rightarrow> string \<Rightarrow> string list" where
  "slices i p = (if i < length p then take 800 (drop i p) # slices (i + 800) p else [])"
  by pat_completeness auto
termination
  by (relation "measure (\<lambda>(i, p). length p - i)") auto

declare slices.simps [simp del]

definition chunk_paragraph :: "(nat \<Rightarrow> nat) \<Rightarrow> chunk list \<times> nat \<Rightarrow> string \<Rightarrow> chunk list \<times> nat" where
  "chunk_paragraph clock st p =
     (if length p \<le> 1000 then push_chunk clock st p
      else foldl (push_chunk clock) st (slices 0 p))"

definition paragraphs :: "string \<Rightarrow> string list" where
  \<comment> \<open>\<open>extractedText.split(/\n{1,}/).map(s => s.trim()).filter(Boolean)\<close>\<close>
  "paragraphs t = filter (\<lambda>s. s \<noteq> []) (map trim (split_runs is_newline t))"

definition chunker :: "(nat \<Rightarrow> nat) \<Rightarrow> string \<Rightarrow> chunk list" where
  "chunker clock extractedText =
     (if extractedText \<noteq> [] \<and> 0 < length (trim extractedText)
      then fst (foldl (chunk_paragraph clock) ([], 0) (paragraphs extractedText))
      else [])"

text \<open>
  The chunks a paragraph contributes, and the chunks pushed for a list of texts starting at
  counter \<open>k\<close>: the closed forms of the two loops, used to state and prove their properties.
\<close>

definition pieces :: "string \<Rightarrow> string list" where
  "pieces p = (if length p \<le> 1000 then [p] else slices 0 p)"

definition emit :: "(nat \<Rightarrow> nat) \<Rightarrow> nat \<Rightarrow> string list \<Rightarrow> chunk list" where
  "emit clock k ts =
     map (\<lambda>(j, t). \<lparr>chunk_id = template_id (clock j) j, chunk_text = t\<rparr>) (enumerate k ts)"

text \<open>
  The number that follows the underscore of an identifier, read back from its decimal digits.
\<close>

definition digit_val :: "char \<Rightarrow> nat" where
  "digit_val c = of_char c - 48"

definition nat_of_string :: "string \<Rightarrow> nat" where
  "nat_of_string s = foldl (\<lambda>a c. 10 * a + digit_val c) 0 s"

definition id_counter :: "string \<Rightarrow> nat" where
  "id_counter i = nat_of_string (rev (takeWhile (\<lambda>c. c \<noteq> CHR ''_'') (rev i)))"

text \<open>A clock that stands still, for evaluating the chunker on concrete texts.\<close>

definition const_clock :: "nat \<Rightarrow> nat \<Rightarrow> nat" where
  "const_clock t k = t"

text \<open>
  The splitting that the specification describes for a long paragraph: windows of the
  maximum size (1000) advanced by the stride (800), so that neighbours share 200 characters.
  It is stated here to be compared with \<open>slices\<close>, the loop of the handler.
\<close>

function overlapping_slices :: "nat \<Rightarrow> string \<Rightarrow> string list" where
  "overlapping_slices i p =
     (if i < length p then take 1000 (drop i p) # overlapping_slices (i + 800) p else [])"
  by pat_completeness auto
termination
  by (relation "measure (\<lambda>(i, p). length p - i)") auto

declare overlapping_slices.simps [simp del]


section \<open>JSON values and the objects the handlers read and write\<close>

text \<open>
  The values \<open>JSON.parse\<close> returns and \<open>JSON.stringify\<close> accepts. Numbers are
  integers in the model; an object is the list of its members, keys distinct. The value
  \<open>undefined\<close> of a missing property is \<open>None\<close>.
\<close>

datatype json = JNull | JBool bool | JNum int | JStr string | JArr "json list" | JObj "(string \<times> json) list"

type_synonym js_value = "json option"

datatype exn = TypeError | SyntaxError | Error string

text \<open>
  Reading a property \<open>v.k\<close> of a parsed value, for the keys the handlers read
  (\<open>chunks\<close>, \<open>text\<close>, \<open>id\<close>): \<open>null\<close> throws a TypeError, an object yields the
  member or \<open>undefined\<close>, every other value yields \<open>undefined\<close>.
\<close>

fun js_get :: "json \<Rightarrow> string \<Rightarrow> exn + js_value" where
  "js_get JNull k = Inl TypeError"
| "js_get (JObj fs) k = Inr (map_of fs k)"
| "js_get v k = Inr None"

text \<open>The object literal \<open>{ id: ..., text: ... }\<close> pushed by the chunker.\<close>

definition chunk_object :: "chunk \<Rightarrow> json" where
  "chunk_object c = JObj [(''id'', JStr (chunk_id c)), (''text'', JStr (chunk_text c))]"


section \<open>More strings: lower case, word characters, joining\<close>

text \<open>
  \<open>String.prototype.toLowerCase\<close> on code units below 256: the ASCII capitals and the
  Latin-1 capitals (192 to 222, without the multiplication sign 215) move up by 32.
\<close>

definition to_lower_char :: "char \<Rightarrow> char" where
  "to_lower_char c =
     (let n = (of_char c :: nat)
      in if (65 \<le> n \<and> n \<le> 90) \<or> (192 \<le> n \<and> n \<le> 222 \<and> n \<noteq> 215) then char_of (n + 32) else c)"

definition to_lower :: "string \<Rightarrow> string" where
  "to_lower s = map to_lower_char s"

text \<open>
  The class \<open>\w\<close> of a regular expression without the unicode flag: ASCII letters, digits
  and the underscore. \<open>\W\<close> is its complement.
\<close>

definition is_word_char :: "char \<Rightarrow> bool" where
  "is_word_char c \<longleftrightarrow>
     (let n = (of_char c :: nat)
      in (48 \<le> n \<and> n \<le> 57) \<or> (65 \<le> n \<and> n \<le> 90) \<or> n = 95 \<or> (97 \<le> n \<and> n \<le> 122))"

text \<open>
  A negative number in a template literal, and \<open>Array.prototype.join\<close>.
\<close>

definition string_of_int :: "int \<Rightarrow> string" where
  "string_of_int n = (if n < 0 then ''-'' @ string_of_nat (nat (- n)) else string_of_nat (nat n))"

fun join :: "string \<Rightarrow> string list \<Rightarrow> string" where
  "join sep [] = []"
| "join sep [x] = x"
| "join sep (x # y # ys) = x @ sep @ join sep (y # ys)"


section \<open>JavaScript values read from parsed JSON\<close>

text \<open>
  Truthiness (\<open>!v\<close>, \<open>v || d\<close>) and the conversion to a string that a template literal
  applies. \<open>map_exn\<close> is \<open>Array.prototype.map\<close> with a callback that may
  throw: the first exception ends the loop.
\<close>

fun falsy :: "js_value \<Rightarrow> bool" where
  "falsy None = True"
| "falsy (Some JNull) = True"
| "falsy (Some (JBool b)) = (\<not> b)"
| "falsy (Some (JNum n)) = (n = 0)"
| "falsy (Some (JStr s)) = (s = [])"
| "falsy (Some (JArr xs)) = False"
| "falsy (Some (JObj fs)) = False"

fun js_to_string :: "js_value \<Rightarrow> string" where
  "js_to_string None = ''undefined''"
| "js_to_string (Some JNull) = ''null''"
| "js_to_string (Some (JBool b)) = (if b then ''true'' else ''false'')"
| "js_to_string (Some (JNum n)) = string_of_int n"
| "js_to_string (Some (JStr s)) = s"
| "js_to_string (Some (JArr xs)) =
     join '','' (map (\<lambda>x. if x = JNull then [] else js_to_string (Some x)) xs)"
| "js_to_string (Some (JObj fs)) = ''[object Object]''"

fun map_exn :: "('a \<Rightarrow> exn + 'b) \<Rightarrow> 'a list \<Rightarrow> exn + 'b list" where
  "map_exn f [] = Inr []"
| "map_exn f (x # xs) =
     (case f x of Inl e \<Rightarrow> Inl e
      | Inr y \<Rightarrow> (case map_exn f xs of Inl e \<Rightarrow> Inl e | Inr ys \<Rightarrow> Inr (y # ys)))"


section \<open>\<open>JSON.stringify\<close> and \<open>JSON.parse\<close>\<close>

text \<open>
  \<open>JSON.stringify(v, null, gap)\<close> on the values of type \<open>json\<close>: a string is quoted,
  with the quotation mark, the backslash and the control characters below 32 escaped (the
  five short escapes, \<open>\u00XX\<close> in lower-case hexadecimal for the others); with a gap every
  element and member starts a new line, indented by the gap per level, and a colon is
  followed by a space; without one (\<open>JSON.stringify(v)\<close>) nothing is inserted (the
  server uses the gaps 2 and 0; JavaScript caps a gap at 10). The
  empty array and the empty object are \<open>[]\<close> and \<open>{}\<close>. The members of an object are
  written in the order of the list (an object with keys that are array indices, which
  JavaScript enumerates first, is outside the model).
\<close>

definition hex_digit :: "nat \<Rightarrow> char" where
  "hex_digit d = (if d < 10 then char_of (48 + d) else char_of (87 + d))"

definition escape_char :: "char \<Rightarrow> string" where
  "escape_char c =
     (let n = (of_char c :: nat)
      in if n = 34 then [CHR 0x5C, CHR 0x22]
         else if n = 92 then [CHR 0x5C, CHR 0x5C]
         else if n = 8 then [CHR 0x5C, CHR ''b'']
         else if n = 9 then [CHR 0x5C, CHR ''t'']
         else if n = 10 then [CHR 0x5C, CHR ''n'']
         else if n = 12 then [CHR 0x5C, CHR ''f'']
         else if n = 13 then [CHR 0x5C, CHR ''r'']
         else if n < 32 then [CHR 0x5C, CHR ''u'', CHR ''0'', CHR ''0'', hex_digit (n div 16), hex_digit (n mod 16)]
         else [c])"

definition quote :: "string \<Rightarrow> string" where
  "quote s = CHR 0x22 # concat (map escape_char s) @ [CHR 0x22]"

definition newline_indent :: "nat \<Rightarrow> nat \<Rightarrow> string" where
  "newline_indent gap ind = (if gap = 0 then [] else CHR 0x0A # replicate ind CHR '' '')"

fun stringify_at :: "nat \<Rightarrow> nat \<Rightarrow> json \<Rightarrow> string" where
  "stringify_at gap ind JNull = ''null''"
| "stringify_at gap ind (JBool b) = (if b then ''true'' else ''false'')"
| "stringify_at gap ind (JNum n) = string_of_int n"
| "stringify_at gap ind (JStr s) = quote s"
| "stringify_at gap ind (JArr xs) =
     (if xs = [] then ''[]''
      else ''['' @ newline_indent gap (ind + gap)
           @ join ('','' @ newline_indent gap (ind + gap)) (map (stringify_at gap (ind + gap)) xs)
           @ newline_indent gap ind @ '']'')"
| "stringify_at gap ind (JObj members) =
     (if members = [] then ''{}''
      else ''{'' @ newline_indent gap (ind + gap)
           @ join ('','' @ newline_indent gap (ind + gap))
               (map (\<lambda>(k, v). quote k @ (if gap = 0 then '':'' else '': '') @ stringify_at gap (ind + gap) v)
                    members)
           @ newline_indent gap ind @ ''}'')"

definition json_stringify :: "nat \<Rightarrow> json \<Rightarrow> string" where
  "json_stringify gap v = stringify_at gap 0 v"

text \<open>
  \<open>JSON.parse\<close>, by recursive descent; \<open>None\<close> is the SyntaxError. White space is
  the tab, the line feed, the carriage return and the space. In a string a backslash
  introduces one of the eight short escapes or \<open>\uXXXX\<close>, and a raw control character is
  an error. A number is an optional minus sign and digits without a leading zero. Three
  kinds of text are valid JSON but outside the model, and read as \<open>None\<close>: a number
  with a fraction or an exponent, an escape \<open>\uXXXX\<close> of a code unit above 255, and, as
  for the printer, the reordering of keys that are array indices. A key that occurs twice
  keeps its first place and takes the last value.
\<close>

definition is_json_ws :: "char \<Rightarrow> bool" where
  "is_json_ws c \<longleftrightarrow> (of_char c :: nat) \<in> {9, 10, 13, 32}"

definition skip_ws :: "string \<Rightarrow> string" where
  "skip_ws s = dropWhile is_json_ws s"

definition hex_val :: "char \<Rightarrow> nat option" where
  "hex_val c =
     (let n = (of_char c :: nat)
      in if 48 \<le> n \<and> n \<le> 57 then Some (n - 48)
         else if 97 \<le> n \<and> n \<le> 102 then Some (n - 87)
         else if 65 \<le> n \<and> n \<le> 70 then Some (n - 55)
         else None)"

definition unescape :: "char \<Rightarrow> char option" where
  "unescape e =
     (if e = CHR 0x22 \<or> e = CHR 0x5C \<or> e = CHR ''/'' then Some e
      else if e = CHR ''b'' then Some (CHR 0x08)
      else if e = CHR ''f'' then Some (CHR 0x0C)
      else if e = CHR ''n'' then Some (CHR 0x0A)
      else if e = CHR ''r'' then Some (CHR 0x0D)
      else if e = CHR ''t'' then Some (CHR 0x09)
      else None)"

definition hex4 :: "char \<Rightarrow> char \<Rightarrow> char \<Rightarrow> char \<Rightarrow> char option" where
  "hex4 a b c d =
     (case (hex_val a, hex_val b, hex_val c, hex_val d) of
        (Some p, Some q, Some r, Some s) \<Rightarrow>
          (if p = 0 \<and> q = 0 then Some (char_of (16 * r + s)) else None)
      | _ \<Rightarrow> None)"

fun parse_chars :: "string \<Rightarrow> (string \<times> string) option" where
  "parse_chars [] = None"
| "parse_chars (c # r) =
     (if c = CHR 0x22 then Some ([], r)
      else if c = CHR 0x5C then
        (case r of
           [] \<Rightarrow> None
         | e # r1 \<Rightarrow>
             if e = CHR ''u'' then
               (case r1 of
                  a # b # c' # d # r2 \<Rightarrow>
                    (case hex4 a b c' d of
                       None \<Rightarrow> None
                     | Some ch \<Rightarrow> map_option (\<lambda>(s, rest). (ch # s, rest)) (parse_chars r2))
                | _ \<Rightarrow> None)
             else
               (case unescape e of
                  None \<Rightarrow> None
                | Some ch \<Rightarrow> map_option (\<lambda>(s, rest). (ch # s, rest)) (parse_chars r1)))
      else if (of_char c :: nat) < 32 then None
      else map_option (\<lambda>(s, rest). (c # s, rest)) (parse_chars r))"

definition is_digit :: "char \<Rightarrow> bool" where
  "is_digit c \<longleftrightarrow> 48 \<le> (of_char c :: nat) \<and> (of_char c :: nat) \<le> 57"

definition starts_fraction :: "string \<Rightarrow> bool" where
  "starts_fraction s \<longleftrightarrow> (case s of [] \<Rightarrow> False | c # r \<Rightarrow> c = CHR ''.'' \<or> c = CHR ''e'' \<or> c = CHR ''E'')"

definition parse_digits :: "string \<Rightarrow> (nat \<times> string) option" where
  "parse_digits s =
     (let ds = takeWhile is_digit s; rest = dropWhile is_digit s
      in if ds = [] then None
         else if 1 < length ds \<and> hd ds = CHR ''0'' then None
         else if starts_fraction rest then None
         else Some (nat_of_string ds, rest))"

definition parse_number :: "string \<Rightarrow> (json \<times> string) option" where
  "parse_number s =
     (case s of
        [] \<Rightarrow> None
      | c # r \<Rightarrow>
          if c = CHR ''-'' then map_option (\<lambda>(n, rest). (JNum (- int n), rest)) (parse_digits r)
          else map_option (\<lambda>(n, rest). (JNum (int n), rest)) (parse_digits s))"

fun obj_put :: "string \<Rightarrow> json \<Rightarrow> (string \<times> json) list \<Rightarrow> (string \<times> json) list" where
  "obj_put k v [] = [(k, v)]"
| "obj_put k v (m # ms) = (if fst m = k then (k, v) # ms else m # obj_put k v ms)"

definition obj_of_members :: "(string \<times> json) list \<Rightarrow> (string \<times> json) list" where
  "obj_of_members ms = foldl (\<lambda>obj m. obj_put (fst m) (snd m) obj) [] ms"

text \<open>
  The three parsers take fuel, which bounds the depth of the calls; \<open>json_parse\<close>
  gives one unit more than the text has characters (\<open>json_parse_stringify\<close> below shows
  that this is enough for every printed value).
\<close>

fun parse_value :: "nat \<Rightarrow> string \<Rightarrow> (json \<times> string) option"
  and parse_elements :: "nat \<Rightarrow> string \<Rightarrow> (json list \<times> string) option"
  and parse_members :: "nat \<Rightarrow> string \<Rightarrow> ((string \<times> json) list \<times> string) option" where
  "parse_value 0 s = None"
| "parse_value (Suc n) s =
     (case s of
        [] \<Rightarrow> None
      | c # r \<Rightarrow>
          if c = CHR 0x22 then map_option (\<lambda>(str, rest). (JStr str, rest)) (parse_chars r)
          else if c = CHR ''['' then
            (case skip_ws r of
               [] \<Rightarrow> None
             | d # r1 \<Rightarrow>
                 if d = CHR '']'' then Some (JArr [], r1)
                 else map_option (\<lambda>(xs, rest). (JArr xs, rest)) (parse_elements n (d # r1)))
          else if c = CHR ''{'' then
            (case skip_ws r of
               [] \<Rightarrow> None
             | d # r1 \<Rightarrow>
                 if d = CHR ''}'' then Some (JObj [], r1)
                 else map_option (\<lambda>(ms, rest). (JObj (obj_of_members ms), rest)) (parse_members n (d # r1)))
          else if take 4 s = ''true'' then Some (JBool True, drop 4 s)
          else if take 5 s = ''false'' then Some (JBool False, drop 5 s)
          else if take 4 s = ''null'' then Some (JNull, drop 4 s)
          else parse_number s)"
| "parse_elements 0 s = None"
| "parse_elements (Suc n) s =
     (case parse_value n s of
        None \<Rightarrow> None
      | Some (v, r) \<Rightarrow>
          (case skip_ws r of
             [] \<Rightarrow> None
           | d # r1 \<Rightarrow>
               if d = CHR '','' then
                 map_option (\<lambda>(vs, rest). (v # vs, rest)) (parse_elements n (skip_ws r1))
               else if d = CHR '']'' then Some ([v], r1)
               else None))"
| "parse_members 0 s = None"
| "parse_members (Suc n) s =
     (case s of
        [] \<Rightarrow> None
      | c # r \<Rightarrow>
          if c \<noteq> CHR 0x22 then None
          else
            (case parse_chars r of
               None \<Rightarrow> None
             | Some (k, r1) \<Rightarrow>
                 (case skip_ws r1 of
                    [] \<Rightarrow> None
                  | d # r2 \<Rightarrow>
                      if d \<noteq> CHR '':'' then None
                      else
                        (case parse_value n (skip_ws r2) of
                           None \<Rightarrow> None
                         | Some (v, r3) \<Rightarrow>
                             (case skip_ws r3 of
                                [] \<Rightarrow> None
                              | e # r4 \<Rightarrow>
                                  if e = CHR '','' then
                                    map_option (\<lambda>(ms, rest). ((k, v) # ms, rest))
                                      (parse_members n (skip_ws r4))
                                  else if e = CHR ''}'' then Some ([(k, v)], r4)
                                  else None)))))"

definition json_parse :: "string \<Rightarrow> json option" where
  "json_parse s =
     (case parse_value (Suc (length s)) (skip_ws s) of
        None \<Rightarrow> None
      | Some (v, rest) \<Rightarrow> if skip_ws rest = [] then Some v else None)"

text \<open>
  For the round trip: the values whose objects have distinct keys, the texts that may follow
  a number, the text of one member, and the statement proved by induction on the value.
\<close>

fun wf_json :: "json \<Rightarrow> bool" where
  "wf_json (JArr xs) = list_all wf_json xs"
| "wf_json (JObj members) = (distinct (map fst members) \<and> list_all (\<lambda>m. wf_json (snd m)) members)"
| "wf_json v = True"

definition value_end :: "string \<Rightarrow> bool" where
  "value_end rest \<longleftrightarrow>
     (case rest of [] \<Rightarrow> True | c # r \<Rightarrow> \<not> is_digit c \<and> c \<noteq> CHR ''.'' \<and> c \<noteq> CHR ''e'' \<and> c \<noteq> CHR ''E'')"

definition member_line :: "nat \<Rightarrow> nat \<Rightarrow> string \<times> json \<Rightarrow> string" where
  "member_line gap i m = quote (fst m) @ (if gap = 0 then '':'' else '': '') @ stringify_at gap i (snd m)"

definition roundtrips :: "json \<Rightarrow> bool" where
  "roundtrips v \<longleftrightarrow>
     (\<forall>gap ind n rest. length (stringify_at gap ind v) < n \<longrightarrow> value_end rest \<longrightarrow>
        parse_value n (stringify_at gap ind v @ rest) = Some (v, rest))"


section \<open>The retriever of \<open>POST /api/file-qa\<close>\<close>

text \<open>
  \<open>question.toLowerCase().split(/\W+/).filter(Boolean)\<close>
\<close>

definition question_words :: "string \<Rightarrow> string list" where
  "question_words question =
     filter (\<lambda>w. w \<noteq> []) (split_runs (\<lambda>c. \<not> is_word_char c) (to_lower question))"

text \<open>
  \<open>w.replace(/[.*+?^${}()|[\]\\]/g, '\\$&')\<close> puts a backslash before each of the
  fourteen syntax characters. \<open>new RegExp(pattern, 'g')\<close> on such a pattern matches a
  literal text: \<open>regex_literal\<close> reads the pattern back (a backslash followed by a syntax
  character stands for that character, any other character for itself) and is \<open>None\<close>
  on patterns outside this fragment, which the escaping never produces.
\<close>

definition is_regex_special :: "char \<Rightarrow> bool" where
  "is_regex_special c \<longleftrightarrow> c \<in> set ''.*+?^${}()|[]'' \<or> c = CHR 0x5C"

definition escape_regex :: "string \<Rightarrow> string" where
  "escape_regex w = concat (map (\<lambda>c. if is_regex_special c then [CHR 0x5C, c] else [c]) w)"

fun regex_literal :: "string \<Rightarrow> string option" where
  "regex_literal [] = Some []"
| "regex_literal [c] = (if is_regex_special c then None else Some [c])"
| "regex_literal (c # d # ds) =
     (if c = CHR 0x5C then
        (if is_regex_special d then map_option ((#) d) (regex_literal ds) else None)
      else if is_regex_special c then None
      else map_option ((#) c) (regex_literal (d # ds)))"

text \<open>
  \<open>(txt.match(re) || []).length\<close> for a global regular expression of a literal \<open>l\<close>:
  the matches are found from left to right, each search starting where the previous match
  ended, so they do not overlap. The empty pattern matches once at every position.
\<close>

function count_matches :: "string \<Rightarrow> string \<Rightarrow> nat" where
  "count_matches l txt =
     (if l = [] then Suc (length txt)
      else if length txt < length l then 0
      else if take (length l) txt = l then Suc (count_matches l (drop (length l) txt))
      else count_matches l (tl txt))"
  by pat_completeness auto
termination
proof (relation "measure (\<lambda>(l, txt). length txt)", goal_cases)
  case 1
  show ?case by simp
next
  case (2 l s)
  then have "0 < length l" and "length l \<le> length s" by simp_all
  then have "length s - length l < length s" by arith
  then show ?case by simp
next
  case (3 l s)
  then have "0 < length l" and "length l \<le> length s" by simp_all
  then have "s \<noteq> []" by auto
  then show ?case by simp
qed

declare count_matches.simps [simp del]


text \<open>
  The scoring callback: \<open>txt\<close> is the lower-cased text of the chunk; words shorter than
  three characters are skipped (\<open>continue\<close>), the others add their number of matches.
\<close>

definition found :: "string \<Rightarrow> string \<Rightarrow> nat" where
  "found w txt = (case regex_literal (escape_regex w) of Some l \<Rightarrow> count_matches l txt | None \<Rightarrow> 0)"

definition chunk_score :: "string list \<Rightarrow> string \<Rightarrow> nat" where
  "chunk_score words txt =
     foldl (\<lambda>score w. if length w < 3 then score else score + found w txt) 0 words"

text \<open>
  The selection. \<open>text_of c\<close> is \<open>c.text || ""\<close>. The comparator
  \<open>(a, b) => b.score - a.score\<close> sorts by descending score and
  \<open>Array.prototype.sort\<close> is stable, as is \<open>sort_key\<close>; the window is the constant 6 and
  the fall-back \<open>chunks.slice(0, 4)\<close>.
\<close>

definition retrieve :: "('c \<Rightarrow> string) \<Rightarrow> 'c list \<Rightarrow> string \<Rightarrow> 'c list" where
  "retrieve text_of chunks question =
     (let words = question_words question;
          scores = map (\<lambda>c. (c, chunk_score words (to_lower (text_of c)))) chunks;
          sorted = sort_key (\<lambda>s. - int (snd s)) scores;
          selected = map fst (take 6 (filter (\<lambda>s. 0 < snd s) sorted))
      in if selected = [] then selected @ take 4 chunks else selected)"

text \<open>
  Names for the parts of \<open>retrieve\<close>, used to state its properties: the score of a
  chunk, the sorted array \<open>scores\<close>, the selection before the fall-back, and the order in
  which the chunk at position \<open>i\<close> comes before the chunk at position \<open>j\<close>.
\<close>

definition score_of :: "('c \<Rightarrow> string) \<Rightarrow> string \<Rightarrow> 'c \<Rightarrow> nat" where
  "score_of text_of question c = chunk_score (question_words question) (to_lower (text_of c))"

definition ranked :: "('c \<Rightarrow> string) \<Rightarrow> string \<Rightarrow> 'c list \<Rightarrow> ('c \<times> nat) list" where
  "ranked text_of question chunks =
     sort_key (\<lambda>s. - int (snd s)) (map (\<lambda>c. (c, score_of text_of question c)) chunks)"

definition top_scored :: "('c \<Rightarrow> string) \<Rightarrow> string \<Rightarrow> 'c list \<Rightarrow> 'c list" where
  "top_scored text_of question chunks =
     map fst (take 6 (filter (\<lambda>s. 0 < snd s) (ranked text_of question chunks)))"

definition ranked_before :: "('c \<Rightarrow> nat) \<Rightarrow> 'c list \<Rightarrow> nat \<Rightarrow> nat \<Rightarrow> bool" where
  "ranked_before sc chunks i j \<longleftrightarrow>
     sc (chunks ! j) < sc (chunks ! i) \<or> (sc (chunks ! i) = sc (chunks ! j) \<and> i < j)"

text \<open>
  The scoring as the specification words it, with a splitter on the characters that are not
  ASCII letters or digits. It is stated here to be compared with \<open>chunk_score\<close>.
\<close>

definition is_alnum_char :: "char \<Rightarrow> bool" where
  "is_alnum_char c \<longleftrightarrow>
     (let n = (of_char c :: nat)
      in (48 \<le> n \<and> n \<le> 57) \<or> (65 \<le> n \<and> n \<le> 90) \<or> (97 \<le> n \<and> n \<le> 122))"

definition spec_tokens :: "string \<Rightarrow> string list" where
  "spec_tokens question =
     filter (\<lambda>w. 3 \<le> length w)
       (filter (\<lambda>w. w \<noteq> []) (split_runs (\<lambda>c. \<not> is_alnum_char c) (to_lower question)))"

definition spec_score :: "string \<Rightarrow> string \<Rightarrow> nat" where
  "spec_score question t = sum_list (map (\<lambda>w. count_matches w (to_lower t)) (spec_tokens question))"


section \<open>The platform, the store and the handlers\<close>

text \<open>
  What the handlers take from their environment is a parameter: the upload directory,
  \<open>path.join\<close>, and the language-model client: \<open>None\<close> when \<open>groqClient\<close>
  is null, otherwise the call \<open>chat.completions.create\<close>, which fails with a message or
  returns the reply; \<open>completion_content\<close> is \<open>response?.choices?.[0]?.message?.content\<close>.
  The model name and the temperature of a request are left out. The helper
  \<open>extractAndParseJson\<close>, which reads the reply of the quiz generator, is a parameter too.
\<close>

record chat_request =
  system_prompt :: string
  user_prompt :: string
  max_tokens :: nat

record chat_completion =
  completion_content :: js_value
  completion_raw :: json

record platform =
  upload_dir :: string
  path_join :: "string \<Rightarrow> string \<Rightarrow> string"
  groq_client :: "(chat_request \<Rightarrow> string + chat_completion) option"
  extract_and_parse_json :: "string \<Rightarrow> js_value"

text \<open>
  The upload directory as a map from paths to file contents; the file object of multer; an
  HTTP response as its status and JSON body; the body of a file-qa request, whose two members
  are absent or strings.
\<close>

type_synonym fs = "string \<rightharpoonup> string"

record response =
  res_status :: nat
  res_body :: json

record upload_file =
  file_originalname :: string
  file_filename :: string
  file_path :: string
  file_size :: int
  file_mimetype :: string

record qa_request =
  qa_fileFilename :: "string option"
  qa_question :: "string option"

definition json_error :: "nat \<Rightarrow> string \<Rightarrow> response" where
  "json_error code msg =
     \<lparr>res_status = code, res_body = JObj [(''ok'', JBool False), (''error'', JStr msg)]\<rparr>"

text \<open>
  \<open>String(err)\<close> in the \<open>catch\<close> of a handler. The message text of an error raised
  by the engine itself is not modelled.
\<close>

fun exn_string :: "exn \<Rightarrow> string" where
  "exn_string TypeError = ''TypeError''"
| "exn_string SyntaxError = ''SyntaxError''"
| "exn_string (Error msg) = ''Error: '' @ msg"

definition get_chat_response :: "platform \<Rightarrow> chat_request \<Rightarrow> exn + string \<times> json" where
  "get_chat_response pf request =
     (case groq_client pf of
        None \<Rightarrow> Inl (Error ''Groq client not configured. Set GROQ_API_KEY in .env and install groq-sdk'')
      | Some create \<Rightarrow>
          (case create request of
             Inl msg \<Rightarrow> Inl (Error (''Groq error: '' @ msg))
           | Inr response \<Rightarrow>
               (if \<not> falsy (completion_content response)
                then Inr (js_to_string (completion_content response), completion_raw response)
                else Inr (json_stringify 0 (completion_raw response), completion_raw response))))"

text \<open>
  The store: one file \<open><filename>.meta.json\<close> per upload, written whole by
  \<open>fs.writeFileSync\<close>.
\<close>

definition meta_path :: "platform \<Rightarrow> string \<Rightarrow> string" where
  "meta_path pf name = path_join pf (upload_dir pf) (name @ ''.meta.json'')"

definition exists_sync :: "fs \<Rightarrow> string \<Rightarrow> bool" where
  "exists_sync files p \<longleftrightarrow> files p \<noteq> None"

definition write_file_sync :: "fs \<Rightarrow> string \<Rightarrow> string \<Rightarrow> fs" where
  "write_file_sync files p data = files(p \<mapsto> data)"

definition meta_object :: "string \<Rightarrow> upload_file \<Rightarrow> string \<Rightarrow> chunk list \<Rightarrow> json" where
  "meta_object doc_id file uploadedAt chunks =
     JObj [(''id'', JStr doc_id),
           (''originalName'', JStr (file_originalname file)),
           (''filename'', JStr (file_filename file)),
           (''path'', JStr (file_path file)),
           (''size'', JNum (file_size file)),
           (''mimeType'', JStr (file_mimetype file)),
           (''uploadedAt'', JStr uploadedAt),
           (''chunks'', JArr (map chunk_object chunks))]"

text \<open>
  The callback of \<open>POST /api/upload\<close>, after the extraction step. It runs when multer
  has stored the raw file (see \<open>upload_route\<close>): \<open>files\<close> is the directory after
  that write and \<open>req_file\<close> the file object. \<open>extractedText\<close> is what reading the
  file, the PDF parser or the OCR produced (empty when nothing could be extracted), \<open>doc_id\<close>
  and \<open>uploadedAt\<close> are the random identifier and the date the handler draws.
\<close>

definition upload ::
  "platform \<Rightarrow> (nat \<Rightarrow> nat) \<Rightarrow> string \<Rightarrow> string \<Rightarrow> fs \<Rightarrow> upload_file option \<Rightarrow> string
     \<Rightarrow> response \<times> fs" where
  "upload pf clock doc_id uploadedAt files req_file extractedText =
     (case req_file of
        None \<Rightarrow> (json_error 400 ''No file uploaded (field 'file')'', files)
      | Some file \<Rightarrow>
          (let chunks = chunker clock extractedText;
               meta = meta_object doc_id file uploadedAt chunks;
               metaPath = meta_path pf (file_filename file);
               files' = write_file_sync files metaPath (json_stringify 2 meta);
               aiResponse =
                 (if extractedText \<noteq> [] \<and> 0 < length (trim extractedText) \<and> groq_client pf \<noteq> None
                  then (case get_chat_response pf
                          \<lparr>system_prompt = ''You are a helpful study assistant analyzing a document.'',
                           user_prompt = ''The following text was extracted from an uploaded file. Please analyze it and provide a helpful response:\<newline>\<newline>---\<newline>\<newline>'' @ extractedText,
                           max_tokens = 900\<rparr> of
                          Inl e \<Rightarrow> JNull
                        | Inr result \<Rightarrow> JStr (fst result))
                  else JNull)
           in (\<lparr>res_status = 200,
                res_body = JObj [(''ok'', JBool True), (''meta'', meta), (''aiResponse'', aiResponse)]\<rparr>,
               files')))"





text \<open>
  The first lines of both query handlers: the 404 when the file does not exist, the parsed
  record otherwise. Then \<open>meta.chunks || []\<close>.
\<close>

definition load_meta :: "platform \<Rightarrow> fs \<Rightarrow> string \<Rightarrow> exn + response + json" where
  "load_meta pf files name =
     (let metaPath = meta_path pf name
      in if \<not> exists_sync files metaPath then Inr (Inl (json_error 404 ''File metadata not found''))
         else (case files metaPath of
                 None \<Rightarrow> Inr (Inl (json_error 404 ''File metadata not found''))
               | Some data \<Rightarrow>
                   (case json_parse data of
                      None \<Rightarrow> Inl SyntaxError
                    | Some meta \<Rightarrow> Inr (Inr meta))))"

definition chunks_value :: "json \<Rightarrow> exn + json" where
  "chunks_value meta =
     (case js_get meta ''chunks'' of
        Inl e \<Rightarrow> Inl e
      | Inr v \<Rightarrow> (case v of None \<Rightarrow> Inr (JArr []) | Some j \<Rightarrow> if falsy v then Inr (JArr []) else Inr j))"

text \<open>
  \<open>(c.text || "")\<close> with the TypeError of \<open>toLowerCase\<close> on a value that is not a
  string; \<open>c.text\<close> as the template literal of the context reads it; the preview
  \<open>{ id: s.id, preview: s.text.slice(0, 200) }\<close>.
\<close>

definition text_or_empty :: "json \<Rightarrow> exn + string" where
  "text_or_empty c =
     (case js_get c ''text'' of
        Inl e \<Rightarrow> Inl e
      | Inr v \<Rightarrow>
          (if falsy v then Inr []
           else (case v of Some (JStr s) \<Rightarrow> Inr s | _ \<Rightarrow> Inl TypeError)))"

definition text_of :: "json \<Rightarrow> string" where
  "text_of c = (case text_or_empty c of Inl e \<Rightarrow> [] | Inr s \<Rightarrow> s)"

definition member_text :: "json \<Rightarrow> js_value" where
  "member_text c = (case js_get c ''text'' of Inl e \<Rightarrow> None | Inr v \<Rightarrow> v)"

definition qa_context :: "json list \<Rightarrow> string" where
  "qa_context selected =
     join ''\<newline>\<newline>---\<newline>\<newline>''
       (map (\<lambda>(i, c). ''Context '' @ string_of_nat (i + 1) @ '':\<newline>'' @ js_to_string (member_text c))
            (enumerate 0 selected))"

definition qa_prompt :: "string \<Rightarrow> string \<Rightarrow> string" where
  "qa_prompt contextText question =
     ''You are a helpful study assistant. Use the following extracted content from a user's uploaded file to answer the question. If the answer cannot be found in the context, say ''
     @ [CHR 0x22] @ ''I cannot find the answer in the provided document.'' @ [CHR 0x22]
     @ '' Keep answers concise unless asked to explain.\<newline>\<newline>'' @ contextText
     @ ''\<newline>\<newline>Question: '' @ question @ ''\<newline>\<newline>Answer:''"

definition used_chunk :: "json \<Rightarrow> exn + json" where
  "used_chunk s =
     (case js_get s ''text'' of
        Inl e \<Rightarrow> Inl e
      | Inr v \<Rightarrow>
          (let id_member = (case js_get s ''id'' of Inr (Some i) \<Rightarrow> [(''id'', i)] | _ \<Rightarrow> [])
           in case v of
                Some (JStr t) \<Rightarrow> Inr (JObj (id_member @ [(''preview'', JStr (take 200 t))]))
              | Some (JArr xs) \<Rightarrow> Inr (JObj (id_member @ [(''preview'', JArr (take 200 xs))]))
              | _ \<Rightarrow> Inl TypeError))"

definition file_qa_body :: "platform \<Rightarrow> fs \<Rightarrow> qa_request \<Rightarrow> exn + response" where
  "file_qa_body pf files req =
     (case (qa_fileFilename req, qa_question req) of
        (Some fileFilename, Some question) \<Rightarrow>
          if fileFilename = [] \<or> question = []
          then Inr (json_error 400 ''Missing fileFilename or question'')
          else
            (case load_meta pf files fileFilename of
               Inl e \<Rightarrow> Inl e
             | Inr (Inl not_found) \<Rightarrow> Inr not_found
             | Inr (Inr meta) \<Rightarrow>
                 (case chunks_value meta of
                    Inl e \<Rightarrow> Inl e
                  | Inr (JArr chunks) \<Rightarrow>
                      (case map_exn text_or_empty chunks of
                         Inl e \<Rightarrow> Inl e
                       | Inr texts \<Rightarrow>
                           (let selected = retrieve text_of chunks question;
                                contextText = qa_context selected;
                                prompt = qa_prompt contextText question
                            in if groq_client pf = None
                               then Inr (json_error 500 ''Groq client not configured'')
                               else
                                 (case get_chat_response pf
                                         \<lparr>system_prompt = ''You are a helpful study assistant.'',
                                          user_prompt = prompt, max_tokens = 900\<rparr> of
                                    Inl e \<Rightarrow> Inl e
                                  | Inr result \<Rightarrow>
                                      (case map_exn used_chunk selected of
                                         Inl e \<Rightarrow> Inl e
                                       | Inr usedChunks \<Rightarrow>
                                           Inr \<lparr>res_status = 200,
                                                res_body = JObj [(''ok'', JBool True),
                                                                 (''text'', JStr (fst result)),
                                                                 (''raw'', snd result),
                                                                 (''usedChunks'', JArr usedChunks)]\<rparr>))))
                  | Inr other \<Rightarrow> Inl TypeError))
      | _ \<Rightarrow> Inr (json_error 400 ''Missing fileFilename or question''))"

definition file_qa :: "platform \<Rightarrow> fs \<Rightarrow> qa_request \<Rightarrow> response \<times> fs" where
  "file_qa pf files req =
     (case file_qa_body pf files req of
        Inl err \<Rightarrow> (json_error 500 (exn_string err), files)
      | Inr res \<Rightarrow> (res, files))"

text \<open>
  \<open>POST /api/file-quiz\<close>. \<open>no_length chunks\<close> is \<open>!chunks.length\<close>.
\<close>

definition no_length :: "json \<Rightarrow> exn + bool" where
  "no_length chunks =
     (case chunks of
        JNull \<Rightarrow> Inl TypeError
      | JArr xs \<Rightarrow> Inr (xs = [])
      | JStr s \<Rightarrow> Inr (s = [])
      | JObj members \<Rightarrow> Inr (falsy (map_of members ''length''))
      | _ \<Rightarrow> Inr True)"

definition quiz_context :: "json list \<Rightarrow> exn + string" where
  "quiz_context chunks =
     (case map_exn (\<lambda>(i, c). case js_get c ''text'' of
                                 Inl e \<Rightarrow> Inl e
                               | Inr v \<Rightarrow> Inr (''Context '' @ string_of_nat (i + 1) @ '': '' @ js_to_string v))
             (enumerate 0 (take 6 chunks)) of
        Inl e \<Rightarrow> Inl e
      | Inr blocks \<Rightarrow> Inr (join ''\<newline>\<newline>'' blocks))"

definition quiz_prompt :: "string \<Rightarrow> string" where
  "quiz_prompt contextText =
     ''Create a quiz from the following extracted content. Output JSON with keys: mcq: [{question, options:[A,B,C,D], answer}], tf: [{q, answer}], short: [{q, answer}]. Use source snippets as context where relevant.\<newline>\<newline>''
     @ contextText"

definition file_quiz_body :: "platform \<Rightarrow> fs \<Rightarrow> string option \<Rightarrow> exn + response" where
  "file_quiz_body pf files req_fileFilename =
     (case req_fileFilename of
        None \<Rightarrow> Inr (json_error 400 ''Missing fileFilename'')
      | Some fileFilename \<Rightarrow>
          if fileFilename = [] then Inr (json_error 400 ''Missing fileFilename'')
          else
            (case load_meta pf files fileFilename of
               Inl e \<Rightarrow> Inl e
             | Inr (Inl not_found) \<Rightarrow> Inr not_found
             | Inr (Inr meta) \<Rightarrow>
                 (case chunks_value meta of
                    Inl e \<Rightarrow> Inl e
                  | Inr chunks \<Rightarrow>
                      (case no_length chunks of
                         Inl e \<Rightarrow> Inl e
                       | Inr True \<Rightarrow> Inr (json_error 400 ''No extracted text available'')
                       | Inr False \<Rightarrow>
                           if groq_client pf = None
                           then Inr (json_error 500 ''AI provider not configured'')
                           else
                             (case chunks of
                                JArr cs \<Rightarrow>
                                  (case quiz_context cs of
                                     Inl e \<Rightarrow> Inl e
                                   | Inr contextText \<Rightarrow>
                                       (case get_chat_response pf
                                               \<lparr>system_prompt = ''File quiz generator'',
                                                user_prompt = quiz_prompt contextText,
                                                max_tokens = 1200\<rparr> of
                                          Inl e \<Rightarrow> Inl e
                                        | Inr result \<Rightarrow>
                                            (let parsed = extract_and_parse_json pf (fst result);
                                                 failed = \<lparr>res_status = 500,
                                                            res_body = JObj [(''ok'', JBool False),
                                                                             (''error'', JStr ''Failed to parse JSON from AI response''),
                                                                             (''aillm_response'', JStr (fst result))]\<rparr>
                                             in case parsed of
                                                  None \<Rightarrow> Inr failed
                                                | Some quiz \<Rightarrow>
                                                    if falsy parsed then Inr failed
                                                    else Inr \<lparr>res_status = 200,
                                                              res_body = JObj [(''ok'', JBool True),
                                                                               (''quiz'', quiz),
                                                                               (''raw'', snd result)]\<rparr>)))
                              | _ \<Rightarrow> Inl TypeError)))))"

definition file_quiz :: "platform \<Rightarrow> fs \<Rightarrow> string option \<Rightarrow> response \<times> fs" where
  "file_quiz pf files req_fileFilename =
     (case file_quiz_body pf files req_fileFilename of
        Inl err \<Rightarrow> (json_error 500 (exn_string err), files)
      | Inr res \<Rightarrow> (res, files))"

definition empty_context_request :: "string \<Rightarrow> chat_request" where
  "empty_context_request question =
     \<lparr>system_prompt = ''You are a helpful study assistant.'',
      user_prompt = qa_prompt [] question, max_tokens = 900\<rparr>"


section \<open>Concrete inputs\<close>

text \<open>
  A document of four chunks for the retriever. A platform for evaluating the handlers, whose
  language model always answers with the same reply. An upload of a zip archive, from which
  no text is extracted, an upload of a text file of two lines, and the upload of a file that
  is itself named like a record.
\<close>

definition greek_chunks :: "chunk list" where
  "greek_chunks =
     [\<lparr>chunk_id = ''17_0'', chunk_text = ''alpha beta''\<rparr>,
      \<lparr>chunk_id = ''17_1'', chunk_text = ''gamma delta''\<rparr>,
      \<lparr>chunk_id = ''17_2'', chunk_text = ''ALPHA alpha''\<rparr>,
      \<lparr>chunk_id = ''17_3'', chunk_text = ''xx alpha''\<rparr>]"

definition demo_platform :: "string \<Rightarrow> platform" where
  "demo_platform reply =
     \<lparr>upload_dir = ''uploads'',
      path_join = (\<lambda>dir name. dir @ ''/'' @ name),
      groq_client = Some (\<lambda>request. Inr \<lparr>completion_content = Some (JStr reply), completion_raw = JObj []\<rparr>),
      extract_and_parse_json = (\<lambda>out. None)\<rparr>"

definition zip_file :: upload_file where
  "zip_file = \<lparr>file_originalname = ''notes.zip'', file_filename = ''1-notes.zip'',
               file_path = ''uploads/1-notes.zip'', file_size = 10, file_mimetype = ''application/zip''\<rparr>"

definition zip_meta :: json where
  "zip_meta = meta_object ''1-abc'' zip_file ''2024-01-01T00:00:00.000Z'' []"

definition zip_platform :: platform where
  "zip_platform = demo_platform ''I cannot find the answer in the provided document.''"

definition zip_store :: fs where
  "zip_store = snd (upload zip_platform (const_clock 1) ''1-abc'' ''2024-01-01T00:00:00.000Z'' Map.empty (Some zip_file) [])"

definition txt_file :: upload_file where
  "txt_file = \<lparr>file_originalname = ''notes.txt'', file_filename = ''2-notes.txt'',
               file_path = ''uploads/2-notes.txt'', file_size = 7, file_mimetype = ''text/plain''\<rparr>"

definition txt_meta :: json where
  "txt_meta = meta_object ''2-abc'' txt_file ''2024-01-02T00:00:00.000Z'' (chunker (const_clock 17) ''one\<newline>two'')"

definition txt_platform :: platform where
  "txt_platform = demo_platform ''ok''"


definition txt_store :: fs where
  "txt_store = snd (upload txt_platform (const_clock 17) ''2-abc'' ''2024-01-02T00:00:00.000Z'' Map.empty (Some txt_file) ''one\<newline>two'')"

definition txt_chunks :: "json list" where
  "txt_chunks = [JObj [(''id'', JStr ''17_0''), (''text'', JStr ''one'')],
                 JObj [(''id'', JStr ''17_1''), (''text'', JStr ''two'')]]"


section \<open>Properties of the chunker\<close>

subsection \<open>Closed form of the loops\<close>

lemma emit_Nil [simp]: "emit clock k [] = []"
  by (simp add: emit_def)

lemma emit_Cons: "emit clock k (t # ts) =
    \<lparr>chunk_id = template_id (clock k) k, chunk_text = t\<rparr> # emit clock (Suc k) ts"
  by (simp add: emit_def)

lemma emit_append: "emit clock k (ts @ us) = emit clock k ts @ emit clock (k + length ts) us"
  by (induction ts arbitrary: k) (simp_all add: emit_Cons)

lemma length_emit [simp]: "length (emit clock k ts) = length ts"
  by (simp add: emit_def)

lemma map_text_emit [simp]: "map chunk_text (emit clock k ts) = ts"
  by (induction ts arbitrary: k) (simp_all add: emit_Cons)

lemma map_id_emit: "map chunk_id (emit clock k ts) = map (\<lambda>j. template_id (clock j) j) [k ..< k + length ts]"
proof (induction ts arbitrary: k)
  case Nil
  show ?case by simp
next
  case (Cons t ts)
  have "[k ..< k + length (t # ts)] = k # [Suc k ..< Suc k + length ts]"
    by (simp add: upt_conv_Cons del: upt_Suc)
  with Cons show ?case by (simp add: emit_Cons del: upt_Suc)
qed

lemma foldl_push_chunk:
  "foldl (push_chunk clock) (cs, k) ts = (cs @ emit clock k ts, k + length ts)"
  by (induction ts arbitrary: cs k) (simp_all add: push_chunk_def emit_Cons)

lemma chunk_paragraph_eq:
  "chunk_paragraph clock (cs, k) p = (cs @ emit clock k (pieces p), k + length (pieces p))"
  by (simp add: chunk_paragraph_def pieces_def foldl_push_chunk push_chunk_def emit_Cons)

lemma foldl_chunk_paragraph:
  "foldl (chunk_paragraph clock) (cs, k) ps =
     (cs @ emit clock k (concat (map pieces ps)), k + length (concat (map pieces ps)))"
  by (induction ps arbitrary: cs k) (simp_all add: chunk_paragraph_eq emit_append add.assoc)

lemma trim_Nil_iff: "trim s = [] \<longleftrightarrow> (\<forall>c \<in> set s. is_js_space c)"
proof -
  let ?d = "dropWhile is_js_space s"
  have "trim s = [] \<longleftrightarrow> (\<forall>c \<in> set ?d. is_js_space c)"
    by (simp only: trim_def rev_is_Nil_conv dropWhile_eq_Nil_conv set_rev)
  also have "\<dots> \<longleftrightarrow> ?d = []"
  proof
    assume all: "\<forall>c \<in> set ?d. is_js_space c"
    show "?d = []"
    proof (rule ccontr)
      assume ne: "?d \<noteq> []"
      then have "\<not> is_js_space (hd ?d)" by (rule hd_dropWhile)
      moreover have "hd ?d \<in> set ?d" using ne by (rule hd_in_set)
      ultimately show False using all by blast
    qed
  next
    assume e: "?d = []"
    show "\<forall>c \<in> set ?d. is_js_space c" unfolding e by simp
  qed
  also have "\<dots> \<longleftrightarrow> (\<forall>c \<in> set s. is_js_space c)"
    by (rule dropWhile_eq_Nil_conv)
  finally show ?thesis .
qed

lemma trim_Nil [simp]: "trim [] = []"
  by (simp add: trim_def)

lemma set_split_runs: "p \<in> set (split_runs sep s) \<Longrightarrow> set p \<subseteq> set s"
proof (induction sep s rule: split_runs.induct)
  case (1 sep s)
  show ?case
  proof (cases "dropWhile (\<lambda>c. \<not> sep c) s = []")
    case True
    with "1.prems" show ?thesis by (subst (asm) split_runs.simps) simp
  next
    case False
    with "1.prems" consider "p = takeWhile (\<lambda>c. \<not> sep c) s"
      | "p \<in> set (split_runs sep (dropWhile sep (dropWhile (\<lambda>c. \<not> sep c) s)))"
      by (subst (asm) split_runs.simps) (auto split: if_splits)
    then show ?thesis
    proof cases
      case 1
      then show ?thesis by (auto dest: set_takeWhileD)
    next
      case 2
      with "1.IH" [OF False] have "set p \<subseteq> set (dropWhile sep (dropWhile (\<lambda>c. \<not> sep c) s))" .
      then show ?thesis by (auto dest!: set_dropWhileD)
    qed
  qed
qed

lemma paragraphs_blank:
  assumes "trim t = []"
  shows "paragraphs t = []"
proof -
  have "trim p = []" if "p \<in> set (split_runs is_newline t)" for p
  proof -
    from that have "set p \<subseteq> set t" by (rule set_split_runs)
    with assms show ?thesis unfolding trim_Nil_iff by blast
  qed
  then show ?thesis by (simp add: paragraphs_def filter_empty_conv)
qed

lemma chunker_eq: "chunker clock t = emit clock 0 (concat (map pieces (paragraphs t)))"
proof (cases "trim t = []")
  case True
  then show ?thesis by (simp add: chunker_def paragraphs_blank)
next
  case False
  then have "t \<noteq> []" by auto
  with False show ?thesis by (simp add: chunker_def foldl_chunk_paragraph)
qed

lemma map_text_chunker: "map chunk_text (chunker clock t) = concat (map pieces (paragraphs t))"
  by (simp add: chunker_eq)

lemma chunker_nth:
  assumes "k < length (chunker clock t)"
  shows "chunker clock t ! k
     = \<lparr>chunk_id = template_id (clock k) k, chunk_text = concat (map pieces (paragraphs t)) ! k\<rparr>"
  using assms unfolding chunker_eq by (simp add: emit_def nth_enumerate_eq)

lemma split_runs_no_sep: "\<forall>c \<in> set s. \<not> sep c \<Longrightarrow> split_runs sep s = [s]"
  by (subst split_runs.simps) simp

lemma trim_id: "s \<noteq> [] \<Longrightarrow> \<not> is_js_space (hd s) \<Longrightarrow> \<not> is_js_space (last s) \<Longrightarrow> trim s = s"
proof -
  assume "s \<noteq> []" "\<not> is_js_space (hd s)" "\<not> is_js_space (last s)"
  then have "dropWhile is_js_space s = s" by (cases s) auto
  moreover have "dropWhile is_js_space (rev s) = rev s"
    using \<open>s \<noteq> []\<close> \<open>\<not> is_js_space (last s)\<close> by (cases "rev s") (auto simp: last_rev [symmetric] hd_rev)
  ultimately show ?thesis by (simp add: trim_def)
qed

lemma paragraphs_single:
  "s \<noteq> [] \<Longrightarrow> \<forall>c \<in> set s. \<not> is_newline c \<and> \<not> is_js_space c \<Longrightarrow> paragraphs s = [s]"
proof -
  assume ne: "s \<noteq> []" and ok: "\<forall>c \<in> set s. \<not> is_newline c \<and> \<not> is_js_space c"
  from ok have "split_runs is_newline s = [s]" by (simp add: split_runs_no_sep)
  moreover from ne ok have "trim s = s" by (intro trim_id) simp_all
  ultimately show ?thesis using ne by (simp add: paragraphs_def)
qed

subsection \<open>The slices of a long paragraph\<close>

lemma slices_length_bound: "s \<in> set (slices i p) \<Longrightarrow> length s \<le> 800"
proof (induction i p rule: slices.induct)
  case (1 i p)
  from "1.prems" show ?case
    by (subst (asm) slices.simps) (auto split: if_splits dest: "1.IH")
qed

lemma concat_slices: "concat (slices i p) = drop i p"
proof (induction i p rule: slices.induct)
  case (1 i p)
  show ?case
  proof (cases "i < length p")
    case True
    have "take 800 (drop i p) @ drop (i + 800) p = drop i p"
      by (metis add.commute append_take_drop_id drop_drop)
    with True 1 show ?thesis by (subst slices.simps) simp
  next
    case False
    then show ?thesis by (subst slices.simps) simp
  qed
qed

lemma slices_eq_map:
  "slices i p = map (\<lambda>j. take 800 (drop (i + 800 * j) p)) [0 ..< (length p - i + 799) div 800]"
proof (induction i p rule: slices.induct)
  case (1 i p)
  show ?case
  proof (cases "i < length p")
    case True
    have n: "(length p - i + 799) div 800 = Suc ((length p - (i + 800) + 799) div 800)"
    proof -
      define x where "x = length p - i"
      have "0 < x" using True by (simp add: x_def)
      then have "(x + 799) div 800 = Suc ((x - 800 + 799) div 800)"
      proof (cases "x < 800")
        case True
        with \<open>0 < x\<close> have "(x + 799) div 800 = 1" by (intro div_nat_eqI) simp_all
        with True show ?thesis by simp
      next
        case False
        then have "x + 799 = (x - 800 + 799) + 800" by simp
        then have "(x + 799) div 800 = (x - 800 + 799 + 800) div 800" by simp
        also have "\<dots> = Suc ((x - 800 + 799) div 800)" by (simp only: div_add_self2)
        finally show ?thesis .
      qed
      moreover have "length p - (i + 800) = x - 800" by (simp only: x_def diff_diff_left)
      ultimately show ?thesis by (simp only: x_def)
    qed
    have u: "[0 ..< Suc m] = 0 # map Suc [0 ..< m]" for m
      by (simp only: map_Suc_upt upt_conv_Cons [OF zero_less_Suc])
    have "slices i p = take 800 (drop i p) # slices (i + 800) p"
      using True by (subst slices.simps) simp
    also have "slices (i + 800) p
        = map (\<lambda>j. take 800 (drop (i + 800 + 800 * j) p)) [0 ..< (length p - (i + 800) + 799) div 800]"
      using True by (rule "1.IH")
    finally show ?thesis
      unfolding n u by (simp add: comp_def add.assoc del: upt_Suc)
  next
    case False
    then show ?thesis by (subst slices.simps) simp
  qed
qed

lemma pieces_length_bound: "s \<in> set (pieces p) \<Longrightarrow> length s \<le> 1000"
  by (auto simp: pieces_def split: if_splits dest: slices_length_bound)

subsection \<open>Identifiers\<close>

lemma digit_val_digit_char: "d < 10 \<Longrightarrow> digit_val (digit_char d) = d"
  by (simp add: digit_val_def digit_char_def)

lemma digit_char_not_underscore: "d < 10 \<Longrightarrow> digit_char d \<noteq> CHR ''_''"
proof
  assume "d < 10" and "digit_char d = CHR ''_''"
  then have "(of_char (digit_char d) :: nat) = of_char (CHR ''_'')" by simp
  with \<open>d < 10\<close> show False by (simp add: digit_char_def)
qed

lemma nat_of_string_snoc: "nat_of_string (s @ [c]) = 10 * nat_of_string s + digit_val c"
  by (simp add: nat_of_string_def)

lemma nat_of_string_of_nat: "nat_of_string (string_of_nat n) = n"
proof (induction n rule: string_of_nat.induct)
  case (1 n)
  show ?case
  proof (cases "n < 10")
    case True
    then show ?thesis
      by (subst string_of_nat.simps) (simp add: nat_of_string_def digit_val_digit_char)
  next
    case False
    with 1 have "nat_of_string (string_of_nat (n div 10)) = n div 10" by simp
    with False show ?thesis
      by (subst string_of_nat.simps) (simp add: nat_of_string_snoc digit_val_digit_char)
  qed
qed

lemma string_of_nat_no_underscore: "c \<in> set (string_of_nat n) \<Longrightarrow> c \<noteq> CHR ''_''"
proof (induction n rule: string_of_nat.induct)
  case (1 n)
  show ?case
  proof (cases "n < 10")
    case True
    with "1.prems" show ?thesis
      by (subst (asm) string_of_nat.simps) (simp add: digit_char_not_underscore)
  next
    case False
    with "1.prems" have "c \<in> set (string_of_nat (n div 10)) \<or> c = digit_char (n mod 10)"
      by (subst (asm) string_of_nat.simps) auto
    then show ?thesis
    proof
      assume "c \<in> set (string_of_nat (n div 10))"
      with False show ?thesis by (rule "1.IH")
    next
      assume "c = digit_char (n mod 10)"
      then show ?thesis using digit_char_not_underscore [of "n mod 10"] by simp
    qed
  qed
qed

lemma id_counter_template: "id_counter (template_id t k) = k"
proof -
  have "takeWhile (\<lambda>c. c \<noteq> CHR ''_'') (rev (string_of_nat k) @ CHR ''_'' # rev (string_of_nat t))
      = rev (string_of_nat k)"
    by (subst takeWhile_append2) (auto dest: string_of_nat_no_underscore)
  then show ?thesis
    by (simp add: id_counter_def template_id_def nat_of_string_of_nat)
qed

lemma inj_template_id: "template_id t k = template_id t' k' \<Longrightarrow> k = k'"
  by (metis id_counter_template)

lemma distinct_ids: "distinct (map chunk_id (chunker clock t))"
proof -
  have "distinct (map (\<lambda>j. template_id (clock j) j) [0 ..< n])" for n
    by (auto simp: distinct_map intro!: inj_onI dest: inj_template_id)
  then show ?thesis by (simp add: chunker_eq map_id_emit)
qed

subsection \<open>Concrete texts\<close>

lemma not_space_a: "\<not> is_js_space CHR ''a''" "\<not> is_js_space CHR ''b''"
  "\<not> is_newline CHR ''a''" "\<not> is_newline CHR ''b''"
  by (simp_all add: is_js_space_def is_newline_def)

lemma long_paragraphs:
  "paragraphs (replicate 800 CHR ''a'' @ replicate 201 CHR ''b'') = [replicate 800 CHR ''a'' @ replicate 201 CHR ''b'']"
  by (rule paragraphs_single) (auto simp: not_space_a)

lemma long_slices:
  "slices 0 (replicate 800 CHR ''a'' @ replicate 201 CHR ''b'') = [replicate 800 CHR ''a'', replicate 201 CHR ''b'']"
  by (simp add: slices.simps [of 0] slices.simps [of 800] slices.simps [of 1600])

lemma long_overlapping:
  "overlapping_slices 0 (replicate 800 CHR ''a'' @ replicate 201 CHR ''b'')
     = [replicate 800 CHR ''a'' @ replicate 200 CHR ''b'', replicate 201 CHR ''b'']"
  by (simp add: overlapping_slices.simps [of 0] overlapping_slices.simps [of 800] overlapping_slices.simps [of 1600])

lemma chunker_hello: "chunker (const_clock 17) ''hello'' = [\<lparr>chunk_id = ''17_0'', chunk_text = ''hello''\<rparr>]"
  by code_simp

lemma two_pars: "chunker (const_clock 17) ''one\<newline>two''
   = [\<lparr>chunk_id = ''17_0'', chunk_text = ''one''\<rparr>, \<lparr>chunk_id = ''17_1'', chunk_text = ''two''\<rparr>]"
  by code_simp

subsection \<open>Claims about the chunker\<close>

text \<open>
  Claim C2, as amended. The claim says that the slices of a paragraph longer than 1000
  characters are windows of the maximum size advanced by 800, neighbours overlapping by 200.
  The loop of the handler takes \<open>p.slice(i, i + 800)\<close> and advances \<open>i\<close> by 800: the
  slices are 800 characters long (the last one may be shorter), the slice with index \<open>j\<close>
  starts at \<open>800 * j\<close>, and put end to end the slices give the paragraph back, so no
  character is in two slices. This holds for the chunks one paragraph adds to the array, and
  for a text made of one such paragraph.
\<close>

theorem chunk_paragraph_long:
  assumes "1000 < length p"
  shows "map chunk_text (drop (length cs) (fst (chunk_paragraph clock (cs, k) p)))
           = map (\<lambda>j. take 800 (drop (800 * j) p)) [0 ..< (length p + 799) div 800]
       \<and> concat (map chunk_text (drop (length cs) (fst (chunk_paragraph clock (cs, k) p)))) = p
       \<and> (paragraphs t = [p] \<longrightarrow>
            map chunk_text (chunker clock t)
              = map (\<lambda>j. take 800 (drop (800 * j) p)) [0 ..< (length p + 799) div 800])"
proof -
  from assms have pc: "pieces p = slices 0 p" by (simp add: pieces_def)
  have a: "map chunk_text (drop (length cs) (fst (chunk_paragraph clock (cs, k) p))) = slices 0 p"
    by (simp add: chunk_paragraph_eq pc)
  have b: "slices 0 p = map (\<lambda>j. take 800 (drop (800 * j) p)) [0 ..< (length p + 799) div 800]"
    using slices_eq_map [of 0 p] by simp
  show ?thesis
    unfolding a by (simp add: concat_slices map_text_chunker pc flip: b)
qed

text \<open>Witness for C2: a paragraph of 800 \<open>a\<close>s followed by 201 \<open>b\<close>s.\<close>

theorem chunk_paragraph_long_witness:
  "1000 < length (replicate 800 CHR ''a'' @ replicate 201 CHR ''b'')
   \<and> paragraphs (replicate 800 CHR ''a'' @ replicate 201 CHR ''b'') = [replicate 800 CHR ''a'' @ replicate 201 CHR ''b'']
   \<and> concat (map chunk_text (drop (length ([] :: chunk list))
        (fst (chunk_paragraph (const_clock 0) ([], 0) (replicate 800 CHR ''a'' @ replicate 201 CHR ''b'')))))
       = replicate 800 CHR ''a'' @ replicate 201 CHR ''b''
   \<and> map chunk_text (chunker (const_clock 0) (replicate 800 CHR ''a'' @ replicate 201 CHR ''b''))
       = map (\<lambda>j. take 800 (drop (800 * j) (replicate 800 CHR ''a'' @ replicate 201 CHR ''b'')))
           [0 ..< (length (replicate 800 CHR ''a'' @ replicate 201 CHR ''b'') + 799) div 800]"
proof -
  have h: "1000 < length (replicate 800 CHR ''a'' @ replicate 201 CHR ''b'')" by simp
  from chunk_paragraph_long [OF h, of "[]" "const_clock 0" 0 "replicate 800 CHR ''a'' @ replicate 201 CHR ''b''"]
    long_paragraphs h
  show ?thesis by blast
qed

text \<open>
  Counterexample for C2 as stated: the paragraph of 800 \<open>a\<close>s and 201 \<open>b\<close>s (1001
  characters) is cut into the 800 \<open>a\<close>s and the 201 \<open>b\<close>s, which share nothing; the
  overlapping windows of the claim would be 800 \<open>a\<close>s with 200 \<open>b\<close>s, then the 201 \<open>b\<close>s.
\<close>

theorem slices_do_not_overlap:
  "map chunk_text (chunker (const_clock 0) (replicate 800 CHR ''a'' @ replicate 201 CHR ''b''))
     = [replicate 800 CHR ''a'', replicate 201 CHR ''b'']
   \<and> map chunk_text (chunker (const_clock 0) (replicate 800 CHR ''a'' @ replicate 201 CHR ''b''))
     \<noteq> overlapping_slices 0 (replicate 800 CHR ''a'' @ replicate 201 CHR ''b'')"
proof -
  have "pieces (replicate 800 CHR ''a'' @ replicate 201 CHR ''b'')
      = slices 0 (replicate 800 CHR ''a'' @ replicate 201 CHR ''b'')"
    by (simp add: pieces_def)
  then have "map chunk_text (chunker (const_clock 0) (replicate 800 CHR ''a'' @ replicate 201 CHR ''b''))
     = [replicate 800 CHR ''a'', replicate 201 CHR ''b'']"
    by (simp add: map_text_chunker long_paragraphs long_slices)
  moreover have "replicate 800 CHR ''a'' \<noteq> replicate 800 CHR ''a'' @ replicate 200 CHR ''b''"
    by simp
  ultimately show ?thesis by (simp add: long_overlapping)
qed

text \<open>
  Claim C4. Every chunk of \<open>chunker clock t\<close> has a text of at most 1000 characters,
  whatever the length of the paragraph it comes from, and a text whose only paragraph has
  exactly 1000 characters yields exactly one chunk, that paragraph.
\<close>

theorem chunk_text_bounded:
  "(\<forall>c \<in> set (chunker clock t). length (chunk_text c) \<le> 1000)
   \<and> (paragraphs t = [p] \<and> length p = 1000 \<longrightarrow> map chunk_text (chunker clock t) = [p])"
proof
  show "\<forall>c \<in> set (chunker clock t). length (chunk_text c) \<le> 1000"
  proof
    fix c assume "c \<in> set (chunker clock t)"
    then have "chunk_text c \<in> set (map chunk_text (chunker clock t))" by simp
    then obtain p where "chunk_text c \<in> set (pieces p)"
      unfolding map_text_chunker by auto
    then show "length (chunk_text c) \<le> 1000" by (rule pieces_length_bound)
  qed
  show "paragraphs t = [p] \<and> length p = 1000 \<longrightarrow> map chunk_text (chunker clock t) = [p]"
    by (simp add: map_text_chunker pieces_def)
qed

text \<open>Witness for C4: the paragraph of 1000 \<open>a\<close>s.\<close>

theorem chunk_text_bounded_witness:
  "paragraphs (replicate 1000 CHR ''a'') = [replicate 1000 CHR ''a'']
   \<and> length (replicate 1000 CHR ''a'') = 1000
   \<and> map chunk_text (chunker (const_clock 0) (replicate 1000 CHR ''a'')) = [replicate 1000 CHR ''a'']
   \<and> hd (chunker (const_clock 0) (replicate 1000 CHR ''a'')) \<in> set (chunker (const_clock 0) (replicate 1000 CHR ''a''))
   \<and> length (chunk_text (hd (chunker (const_clock 0) (replicate 1000 CHR ''a'')))) \<le> 1000"
proof -
  have p: "paragraphs (replicate 1000 CHR ''a'') = [replicate 1000 CHR ''a'']"
    by (rule paragraphs_single) (auto simp: not_space_a)
  have l: "length (replicate 1000 CHR ''a'') = 1000" by simp
  note t = chunk_text_bounded [of "const_clock 0" "replicate 1000 CHR ''a''" "replicate 1000 CHR ''a''"]
  from t p l have m: "map chunk_text (chunker (const_clock 0) (replicate 1000 CHR ''a'')) = [replicate 1000 CHR ''a'']"
    by blast
  then have "chunker (const_clock 0) (replicate 1000 CHR ''a'') \<noteq> []" by auto
  then have "hd (chunker (const_clock 0) (replicate 1000 CHR ''a'')) \<in> set (chunker (const_clock 0) (replicate 1000 CHR ''a''))"
    by (rule hd_in_set)
  with t p l m show ?thesis by blast
qed

text \<open>
  Claim C5, as amended. The claim says that a chunk is a record \<open>{id, text, ordinal}\<close>.
  The chunker pushes objects with the two members \<open>id\<close> and \<open>text\<close> and no ordinal. The
  \<open>id\<close> of the chunk at position \<open>k\<close> (counted from 0) is the clock reading, an
  underscore and \<open>k\<close> in decimal: the number after the underscore is the emission order
  and grows by one from chunk to chunk, and the identifiers of a document are pairwise
  distinct.
\<close>

theorem chunk_ids:
  assumes "k < length (chunker clock t)"
  shows "chunk_id (chunker clock t ! k) = template_id (clock k) k
       \<and> id_counter (chunk_id (chunker clock t ! k)) = k
       \<and> chunk_object (chunker clock t ! k)
           = JObj [(''id'', JStr (template_id (clock k) k)), (''text'', JStr (chunk_text (chunker clock t ! k)))]
       \<and> distinct (map chunk_id (chunker clock t))"
  using assms by (simp add: chunker_nth id_counter_template chunk_object_def distinct_ids)

text \<open>Witness for C5: the second chunk of a text of two paragraphs.\<close>

theorem chunk_ids_witness:
  "1 < length (chunker (const_clock 17) ''one\<newline>two'')
   \<and> chunk_id (chunker (const_clock 17) ''one\<newline>two'' ! 1) = ''17_1''
   \<and> id_counter (chunk_id (chunker (const_clock 17) ''one\<newline>two'' ! 1)) = 1"
proof -
  have h: "1 < length (chunker (const_clock 17) ''one\<newline>two'')"
    by (simp add: two_pars)
  have tid: "template_id (const_clock 17 1) 1 = ''17_1''"
    by code_simp
  note c = chunk_ids [OF h]
  from c have "chunk_id (chunker (const_clock 17) ''one\<newline>two'' ! 1) = ''17_1''"
    unfolding tid by blast
  moreover from c have "id_counter (chunk_id (chunker (const_clock 17) ''one\<newline>two'' ! 1)) = 1"
    by blast
  ultimately show ?thesis using h by blast
qed

text \<open>
  Counterexample for C5 as stated: the chunk made from the text \<open>hello\<close> is the object
  with members \<open>id\<close> and \<open>text\<close>; reading its \<open>ordinal\<close> gives \<open>undefined\<close>.
\<close>

theorem chunk_no_ordinal:
  "chunk_object (chunker (const_clock 17) ''hello'' ! 0) = JObj [(''id'', JStr ''17_0''), (''text'', JStr ''hello'')]
   \<and> js_get (chunk_object (chunker (const_clock 17) ''hello'' ! 0)) ''ordinal'' = Inr None"
  by (simp add: chunker_hello chunk_object_def)


section \<open>Properties of the retriever\<close>

subsection \<open>Scoring\<close>

lemma regex_literal_plain:
  "\<not> is_regex_special c \<Longrightarrow> regex_literal (c # r) = map_option ((#) c) (regex_literal r)"
  by (cases r) (auto simp: is_regex_special_def)

lemma regex_literal_escaped:
  "is_regex_special c \<Longrightarrow> regex_literal (CHR 0x5C # c # r) = map_option ((#) c) (regex_literal r)"
  by simp

lemma regex_literal_escape: "regex_literal (escape_regex w) = Some w"
proof (induction w)
  case Nil
  show ?case by (simp add: escape_regex_def)
next
  case (Cons c w)
  have e: "escape_regex (c # w) = (if is_regex_special c then [CHR 0x5C, c] else [c]) @ escape_regex w"
    by (simp add: escape_regex_def)
  show ?case
  proof (cases "is_regex_special c")
    case True
    with Cons show ?thesis unfolding e by (simp add: regex_literal_escaped del: regex_literal.simps)
  next
    case False
    with Cons show ?thesis unfolding e by (simp add: regex_literal_plain del: regex_literal.simps)
  qed
qed

lemma found_eq: "found w t = count_matches w t"
  by (simp add: found_def regex_literal_escape)

lemma foldl_score:
  "foldl (\<lambda>score w. if length w < 3 then score else score + found w t) a ws
     = a + sum_list (map (\<lambda>w. count_matches w t) (filter (\<lambda>w. 3 \<le> length w) ws))"
  by (induction ws arbitrary: a) (simp_all add: found_eq not_less)

lemma chunk_score_sum:
  "chunk_score ws t = sum_list (map (\<lambda>w. count_matches w t) (filter (\<lambda>w. 3 \<le> length w) ws))"
  by (simp add: chunk_score_def foldl_score)

lemma split_runs_cong:
  "\<forall>c \<in> set s. sep c = sep' c \<Longrightarrow> split_runs sep s = split_runs sep' s"
proof (induction sep s rule: split_runs.induct)
  case (1 sep s)
  let ?n = "\<lambda>c. \<not> sep c" and ?n' = "\<lambda>c. \<not> sep' c"
  from "1.prems" have tw: "takeWhile ?n s = takeWhile ?n' s"
    by (intro takeWhile_cong) auto
  from "1.prems" have dw: "dropWhile ?n s = dropWhile ?n' s"
    by (intro dropWhile_cong) auto
  have sub: "set (dropWhile ?n s) \<subseteq> set s" by (auto dest: set_dropWhileD)
  with "1.prems" have dd: "dropWhile sep (dropWhile ?n s) = dropWhile sep' (dropWhile ?n s)"
    by (intro dropWhile_cong) auto
  have l: "split_runs sep s =
      (if dropWhile ?n s = [] then [s]
       else takeWhile ?n s # split_runs sep (dropWhile sep (dropWhile ?n s)))"
    by (rule split_runs.simps)
  have r: "split_runs sep' s =
      (if dropWhile ?n s = [] then [s]
       else takeWhile ?n s # split_runs sep' (dropWhile sep (dropWhile ?n s)))"
    unfolding tw dw dd [unfolded dw] by (rule split_runs.simps)
  show ?case
  proof (cases "dropWhile ?n s = []")
    case True
    then show ?thesis unfolding l r by (simp only: if_True refl)
  next
    case False
    have "set (dropWhile sep (dropWhile ?n s)) \<subseteq> set s"
      using sub by (auto dest: set_dropWhileD)
    with "1.prems" have "\<forall>c \<in> set (dropWhile sep (dropWhile ?n s)). sep c = sep' c" by blast
    with "1.IH" [OF False] have "split_runs sep (dropWhile sep (dropWhile ?n s))
        = split_runs sep' (dropWhile sep (dropWhile ?n s))" .
    with False show ?thesis unfolding l r by (simp only: if_False)
  qed
qed

lemma of_char_eq_iff': "(of_char c :: nat) = of_char d \<longleftrightarrow> c = d"
  by (metis char_of_char)

lemma to_lower_char_underscore: "to_lower_char c = CHR ''_'' \<longleftrightarrow> c = CHR ''_''"
proof -
  have "to_lower_char c = CHR ''_'' \<longleftrightarrow> (of_char (to_lower_char c) :: nat) = of_char (CHR ''_'')"
    by (simp only: of_char_eq_iff')
  also have "\<dots> \<longleftrightarrow> (of_char c :: nat) = of_char (CHR ''_'')"
    by (auto simp: to_lower_char_def Let_def)
  also have "\<dots> \<longleftrightarrow> c = CHR ''_''"
    by (simp only: of_char_eq_iff')
  finally show ?thesis .
qed

lemma word_char_alnum: "is_word_char c \<longleftrightarrow> is_alnum_char c \<or> c = CHR ''_''"
proof -
  have "c = CHR ''_'' \<longleftrightarrow> (of_char c :: nat) = 95"
    using of_char_eq_iff' [of c "CHR ''_''"] by simp
  then show ?thesis by (auto simp: is_word_char_def is_alnum_char_def Let_def)
qed

lemma to_lower_char_idem: "to_lower_char (to_lower_char c) = to_lower_char c"
  by (auto simp: to_lower_char_def Let_def)

lemma to_lower_idem: "to_lower (to_lower s) = to_lower s"
  by (simp add: to_lower_def to_lower_char_idem)

lemma split_runs_pieces: "p \<in> set (split_runs sep s) \<Longrightarrow> \<forall>c \<in> set p. \<not> sep c"
proof (induction sep s rule: split_runs.induct)
  case (1 sep s)
  show ?case
  proof (cases "dropWhile (\<lambda>c. \<not> sep c) s = []")
    case True
    with "1.prems" have "p = s" by (subst (asm) split_runs.simps) simp
    with True show ?thesis by (simp add: dropWhile_eq_Nil_conv)
  next
    case False
    with "1.prems" consider "p = takeWhile (\<lambda>c. \<not> sep c) s"
      | "p \<in> set (split_runs sep (dropWhile sep (dropWhile (\<lambda>c. \<not> sep c) s)))"
      by (subst (asm) split_runs.simps) (auto split: if_splits)
    then show ?thesis
    proof cases
      case 1
      then show ?thesis by (auto dest: set_takeWhileD)
    next
      case 2
      with "1.IH" [OF False] show ?thesis .
    qed
  qed
qed

lemma question_words_props:
  assumes "w \<in> set (question_words q)"
  shows "w \<noteq> []" and "\<forall>c \<in> set w. is_word_char c" and "to_lower w = w"
proof -
  from assms have ne: "w \<noteq> []" and w: "w \<in> set (split_runs (\<lambda>c. \<not> is_word_char c) (to_lower q))"
    by (simp_all add: question_words_def)
  show "w \<noteq> []" by (rule ne)
  from split_runs_pieces [OF w] show "\<forall>c \<in> set w. is_word_char c" by simp
  from set_split_runs [OF w] have "set w \<subseteq> set (to_lower q)" .
  then have "\<forall>c \<in> set w. to_lower_char c = c"
    by (auto simp: to_lower_def to_lower_char_idem)
  then show "to_lower w = w" by (simp add: to_lower_def map_idI)
qed

lemma spec_score_no_underscore:
  assumes "CHR ''_'' \<notin> set q"
  shows "spec_score q t = chunk_score (question_words q) (to_lower t)"
proof -
  have "CHR ''_'' \<notin> set (to_lower q)"
  proof
    assume "CHR ''_'' \<in> set (to_lower q)"
    then obtain c where "c \<in> set q" and "to_lower_char c = CHR ''_''"
      by (auto simp: to_lower_def)
    then have "c = CHR ''_''" by (simp only: to_lower_char_underscore)
    with \<open>c \<in> set q\<close> assms show False by simp
  qed
  then have "\<forall>c \<in> set (to_lower q). (\<not> is_alnum_char c) = (\<not> is_word_char c)"
    by (auto simp: word_char_alnum)
  then have "split_runs (\<lambda>c. \<not> is_alnum_char c) (to_lower q) = split_runs (\<lambda>c. \<not> is_word_char c) (to_lower q)"
    by (rule split_runs_cong)
  then show ?thesis
    by (simp add: spec_score_def spec_tokens_def chunk_score_sum question_words_def)
qed

subsection \<open>Selection\<close>

lemma retrieve_eq:
  "retrieve t cs q = (if top_scored t q cs = [] then take 4 cs else top_scored t q cs)"
  by (simp add: retrieve_def top_scored_def ranked_def score_of_def Let_def)

lemma filter_ranked:
  "filter (\<lambda>s. 0 < snd s) (ranked t q cs)
     = sort_key (\<lambda>s. - int (snd s))
         (map (\<lambda>c. (c, score_of t q c)) (filter (\<lambda>c. 0 < score_of t q c) cs))"
  by (simp add: ranked_def filter_sort filter_map comp_def)

lemma length_top_scored:
  "length (top_scored t q cs) = min 6 (length (filter (\<lambda>c. 0 < score_of t q c) cs))"
  by (simp add: top_scored_def filter_ranked min.commute)

lemma top_scored_Nil_iff: "top_scored t q cs = [] \<longleftrightarrow> (\<forall>c \<in> set cs. score_of t q c = 0)"
proof -
  have "top_scored t q cs = [] \<longleftrightarrow> length (top_scored t q cs) = 0" by simp
  also have "\<dots> \<longleftrightarrow> filter (\<lambda>c. 0 < score_of t q c) cs = []"
    unfolding length_top_scored by (cases "filter (\<lambda>c. 0 < score_of t q c) cs") simp_all
  also have "\<dots> \<longleftrightarrow> (\<forall>c \<in> set cs. score_of t q c = 0)"
    by (simp add: filter_empty_conv)
  finally show ?thesis .
qed

lemma set_top_scored: "set (top_scored t q cs) \<subseteq> set cs"
proof
  fix c assume "c \<in> set (top_scored t q cs)"
  then obtain s where "s \<in> set (take 6 (filter (\<lambda>s. 0 < snd s) (ranked t q cs)))" and "c = fst s"
    by (auto simp: top_scored_def)
  then have "s \<in> set (ranked t q cs)" by (auto dest: in_set_takeD)
  then have "s \<in> set (map (\<lambda>c. (c, score_of t q c)) cs)" by (simp add: ranked_def)
  with \<open>c = fst s\<close> show "c \<in> set cs" by auto
qed

lemma set_retrieve: "set (retrieve t cs q) \<subseteq> set cs"
  using set_top_scored [of t q cs] by (auto simp: retrieve_eq dest: in_set_takeD)

lemma retrieve_Nil [simp]: "retrieve t [] q = []"
  by (simp add: retrieve_eq top_scored_def ranked_def)

subsection \<open>Order of the selection\<close>

lemma insort_key_map:
  "insort_key f (g x) (map g ys) = map g (insort_key (\<lambda>y. f (g y)) x ys)"
  by (induction ys) simp_all

lemma sort_key_map:
  "sort_key f (map g xs) = map g (sort_key (\<lambda>y. f (g y)) xs)"
  by (induction xs) (simp_all add: insort_key_map)

lemma insort_key_lex:
  fixes k :: "'a \<Rightarrow> int" and ix :: "'a \<Rightarrow> nat"
  assumes "sorted_wrt (\<lambda>a b. k a < k b \<or> (k a = k b \<and> ix a < ix b)) ys"
    and "\<forall>y \<in> set ys. ix x < ix y"
  shows "sorted_wrt (\<lambda>a b. k a < k b \<or> (k a = k b \<and> ix a < ix b)) (insort_key k x ys)"
  using assms
proof (induction ys)
  case Nil
  show ?case by simp
next
  case (Cons y ys)
  show ?case
  proof (cases "k x \<le> k y")
    case True
    have "k x < k z \<or> (k x = k z \<and> ix x < ix z)" if "z \<in> set (y # ys)" for z
    proof -
      have "k y \<le> k z" using that Cons.prems(1) by auto
      moreover have "ix x < ix z" using that Cons.prems(2) by auto
      ultimately show ?thesis using True by auto
    qed
    with Cons.prems(1) True show ?thesis by simp
  next
    case False
    have "sorted_wrt (\<lambda>a b. k a < k b \<or> (k a = k b \<and> ix a < ix b)) (insort_key k x ys)"
      using Cons.prems by (intro Cons.IH) simp_all
    moreover have "k y < k z \<or> (k y = k z \<and> ix y < ix z)" if "z \<in> set (insort_key k x ys)" for z
      using that False Cons.prems(1) by (auto simp: set_insort_key)
    ultimately show ?thesis using False by simp
  qed
qed

lemma sort_key_lex:
  fixes k :: "'a \<Rightarrow> int" and ix :: "'a \<Rightarrow> nat"
  assumes "sorted_wrt (\<lambda>a b. ix a < ix b) xs"
  shows "sorted_wrt (\<lambda>a b. k a < k b \<or> (k a = k b \<and> ix a < ix b)) (sort_key k xs)"
  using assms
proof (induction xs)
  case Nil
  show ?case by simp
next
  case (Cons x xs)
  then have "sorted_wrt (\<lambda>a b. k a < k b \<or> (k a = k b \<and> ix a < ix b)) (sort_key k xs)"
    and "\<forall>y \<in> set (sort_key k xs). ix x < ix y" by simp_all
  then show ?case by (simp add: insort_key_lex)
qed

lemma sorted_enumerate: "sorted_wrt (\<lambda>a b. fst a < fst b) (enumerate n xs)"
proof -
  have "sorted_wrt (<) (map fst (enumerate n xs))" by simp
  then show ?thesis by (simp only: sorted_wrt_map)
qed

lemma ranked_indexed:
  "ranked t q cs
     = map (\<lambda>p. (snd p, score_of t q (snd p)))
         (sort_key (\<lambda>p. - int (score_of t q (snd p))) (enumerate 0 cs))"
proof -
  have "map (\<lambda>p. (snd p, score_of t q (snd p))) (enumerate 0 cs)
      = map (\<lambda>c. (c, score_of t q c)) (map snd (enumerate 0 cs))"
    by (simp only: map_map comp_def)
  also have "\<dots> = map (\<lambda>c. (c, score_of t q c)) cs"
    by (simp only: map_snd_enumerate)
  finally have "map (\<lambda>c. (c, score_of t q c)) cs
      = map (\<lambda>p. (snd p, score_of t q (snd p))) (enumerate 0 cs)" by (rule sym)
  then show ?thesis
    unfolding ranked_def by (simp only: sort_key_map snd_conv)
qed

lemma top_scored_indexed:
  "\<exists>is. top_scored t q cs = map ((!) cs) is \<and> (\<forall>i \<in> set is. i < length cs)
      \<and> sorted_wrt (ranked_before (score_of t q) cs) is"
proof -
  let ?sc = "score_of t q"
  let ?k = "\<lambda>p :: nat \<times> 'a. - int (?sc (snd p))"
  let ?L = "sort_key ?k (enumerate 0 cs)"
  let ?S = "take 6 (filter (\<lambda>p. 0 < ?sc (snd p)) ?L)"
  have mem: "fst p < length cs \<and> snd p = cs ! fst p" if "p \<in> set ?L" for p
    using that by (auto simp: in_set_enumerate_eq)
  have memS: "p \<in> set ?L" if "p \<in> set ?S" for p
    using that by (auto dest: in_set_takeD)
  have "sorted_wrt (\<lambda>a b. ?k a < ?k b \<or> (?k a = ?k b \<and> fst a < fst b)) ?L"
    by (rule sort_key_lex) (rule sorted_enumerate)
  then have "sorted_wrt (\<lambda>a b. ?k a < ?k b \<or> (?k a = ?k b \<and> fst a < fst b)) ?S"
    by (intro sorted_wrt_take sorted_wrt_filter)
  then have "sorted_wrt (\<lambda>a b. ranked_before ?sc cs (fst a) (fst b)) ?S"
  proof (rule sorted_wrt_mono_rel [rotated])
    fix a b assume "a \<in> set ?S" "b \<in> set ?S"
      and "?k a < ?k b \<or> (?k a = ?k b \<and> fst a < fst b)"
    moreover from this have "snd a = cs ! fst a" "snd b = cs ! fst b"
      using mem memS by blast+
    ultimately show "ranked_before ?sc cs (fst a) (fst b)"
      by (auto simp: ranked_before_def)
  qed
  then have s: "sorted_wrt (ranked_before ?sc cs) (map fst ?S)"
    by (simp only: sorted_wrt_map)
  have "top_scored t q cs = map snd ?S"
    unfolding top_scored_def ranked_indexed
    by (simp only: filter_map take_map map_map comp_def fst_conv snd_conv)
  also have "\<dots> = map (\<lambda>p. cs ! fst p) ?S"
    by (rule map_cong [OF refl]) (use mem memS in blast)
  also have "\<dots> = map ((!) cs) (map fst ?S)"
    by (simp only: map_map comp_def)
  finally have "top_scored t q cs = map ((!) cs) (map fst ?S)" .
  moreover have "\<forall>i \<in> set (map fst ?S). i < length cs"
  proof
    fix i assume "i \<in> set (map fst ?S)"
    then obtain p where "p \<in> set ?S" "i = fst p" unfolding set_map by blast
    with mem memS show "i < length cs" by blast
  qed
  ultimately show ?thesis using s by blast
qed

subsection \<open>Concrete questions\<close>

lemma greek_retrieve:
  "retrieve chunk_text greek_chunks ''Alpha?'' = [greek_chunks ! 2, greek_chunks ! 0, greek_chunks ! 3]"
  by code_simp

lemma greek_no_omega: "\<forall>c \<in> set greek_chunks. score_of chunk_text ''omega'' c = 0"
  by code_simp

lemma greek_length: "length greek_chunks = 4"
  by (simp add: greek_chunks_def)

lemma alpha_word: "''alpha'' \<in> set (question_words ''Alpha?'')"
  by code_simp

subsection \<open>Claims about the retriever\<close>

text \<open>
  Claim C1, as amended. The claim says that the result has exactly
  \<open>min(limit, chunk count)\<close> elements. The handler keeps only the chunks whose score is
  above zero before it cuts at 6, and falls back to the first 4 chunks when none is left: the
  result has \<open>min 6\<close> of the number of chunks with a positive score when there is one, and
  \<open>min 4\<close> of the number of chunks otherwise. It never has more than
  \<open>min 6 (length cs)\<close> elements, and it is not empty when there is a chunk.
\<close>

theorem retrieve_length:
  "length (retrieve t cs q)
     = (if \<exists>c \<in> set cs. 0 < score_of t q c
        then min 6 (length (filter (\<lambda>c. 0 < score_of t q c) cs))
        else min 4 (length cs))
   \<and> length (retrieve t cs q) \<le> min 6 (length cs)
   \<and> (cs \<noteq> [] \<longrightarrow> retrieve t cs q \<noteq> [])"
proof (cases "top_scored t q cs = []")
  case True
  then have z: "\<forall>c \<in> set cs. score_of t q c = 0" by (simp only: top_scored_Nil_iff)
  then have "\<not> (\<exists>c \<in> set cs. 0 < score_of t q c)" by simp
  with True show ?thesis by (auto simp: retrieve_eq min.commute)
next
  case False
  then have "\<exists>c \<in> set cs. 0 < score_of t q c" by (auto simp: top_scored_Nil_iff)
  moreover have "length (filter (\<lambda>c. 0 < score_of t q c) cs) \<le> length cs" by (rule length_filter_le)
  then have "min 6 (length (filter (\<lambda>c. 0 < score_of t q c) cs)) \<le> min 6 (length cs)"
    by (rule min.mono [OF order_refl])
  ultimately show ?thesis using False by (simp add: retrieve_eq length_top_scored)
qed

text \<open>
  Witness for C1: four chunks, three of which contain the word of the question.
\<close>

theorem retrieve_length_witness:
  "greek_chunks \<noteq> []
   \<and> retrieve chunk_text greek_chunks ''Alpha?'' \<noteq> []
   \<and> length (retrieve chunk_text greek_chunks ''Alpha?'') \<le> min 6 (length greek_chunks)"
proof -
  have "greek_chunks \<noteq> []" by (simp add: greek_chunks_def)
  with retrieve_length [of chunk_text greek_chunks "''Alpha?''"] show ?thesis by blast
qed

text \<open>
  Counterexample for C1 as stated: of the four chunks three contain \<open>alpha\<close>, and the
  result has 3 elements, not \<open>min 6 4 = 4\<close>.
\<close>

theorem retrieve_length_counterexample:
  "length (retrieve chunk_text greek_chunks ''Alpha?'') = 3
   \<and> length (retrieve chunk_text greek_chunks ''Alpha?'') \<noteq> min 6 (length greek_chunks)"
  by (simp add: greek_retrieve greek_length)

text \<open>
  Claim C3. When no chunk has a score above zero, the result is exactly the first
  \<open>min 4 (length cs)\<close> chunks in their original order, and so is not empty when the
  document has a chunk.
\<close>

theorem retrieve_fallback:
  assumes "\<forall>c \<in> set cs. score_of t q c = 0"
  shows "retrieve t cs q = take 4 cs
       \<and> length (retrieve t cs q) = min 4 (length cs)
       \<and> (cs \<noteq> [] \<longrightarrow> retrieve t cs q \<noteq> [])"
proof -
  from assms have "top_scored t q cs = []" by (simp only: top_scored_Nil_iff)
  then show ?thesis by (auto simp: retrieve_eq min.commute)
qed

text \<open>
  Witness for C3: no chunk contains \<open>omega\<close>.
\<close>

theorem retrieve_fallback_witness:
  "map (score_of chunk_text ''omega'') greek_chunks = [0, 0, 0, 0]
   \<and> greek_chunks \<noteq> []
   \<and> retrieve chunk_text greek_chunks ''omega'' = take 4 greek_chunks
   \<and> retrieve chunk_text greek_chunks ''omega'' \<noteq> []"
proof -
  have "greek_chunks \<noteq> []" by (simp add: greek_chunks_def)
  moreover have "map (score_of chunk_text ''omega'') greek_chunks = [0, 0, 0, 0]"
    using greek_no_omega by (simp add: greek_chunks_def)
  ultimately show ?thesis using retrieve_fallback [OF greek_no_omega] by blast
qed

text \<open>
  Claim C6. The result of \<open>retrieve\<close> is a function of the chunks and the question
  alone, so equal inputs give equal results. Its elements are the chunks at positions
  \<open>is\<close> of the document, and along \<open>is\<close> the score never goes up; among chunks
  of equal score the one with the lower position comes first.
\<close>

theorem retrieve_order:
  "(\<exists>is. retrieve t cs q = map ((!) cs) is \<and> (\<forall>i \<in> set is. i < length cs)
        \<and> sorted_wrt (ranked_before (score_of t q) cs) is)
   \<and> (cs' = cs \<and> q' = q \<longrightarrow> retrieve t cs' q' = retrieve t cs q)"
proof (cases "top_scored t q cs = []")
  case False
  with top_scored_indexed [of t q cs] show ?thesis by (simp add: retrieve_eq)
next
  case True
  then have z: "\<forall>c \<in> set cs. score_of t q c = 0" by (simp only: top_scored_Nil_iff)
  let ?is = "[0 ..< min 4 (length cs)]"
  have "take 4 cs = map ((!) cs) ?is"
    by (rule nth_equalityI) (simp_all add: min.commute)
  moreover have "sorted_wrt (ranked_before (score_of t q) cs) ?is"
  proof (rule sorted_wrt_mono_rel [rotated])
    show "sorted_wrt (<) ?is" by simp
  next
    fix i j assume "i \<in> set ?is" "j \<in> set ?is" "i < j"
    then have "cs ! i \<in> set cs" "cs ! j \<in> set cs" by simp_all
    with z \<open>i < j\<close> show "ranked_before (score_of t q) cs i j"
      by (simp add: ranked_before_def)
  qed
  moreover have "\<forall>i \<in> set ?is. i < length cs" by simp
  ultimately have "\<exists>is. take 4 cs = map ((!) cs) is \<and> (\<forall>i \<in> set is. i < length cs)
        \<and> sorted_wrt (ranked_before (score_of t q) cs) is" by blast
  with True show ?thesis by (simp add: retrieve_eq)
qed

text \<open>
  Witness for C6: the scores are 1, 0, 2, 1, and the result is the chunks at positions
  2, 0 and 3.
\<close>

theorem retrieve_order_witness:
  "(\<exists>is. retrieve chunk_text greek_chunks ''Alpha?'' = map ((!) greek_chunks) is
         \<and> (\<forall>i \<in> set is. i < length greek_chunks)
         \<and> sorted_wrt (ranked_before (score_of chunk_text ''Alpha?'') greek_chunks) is)
   \<and> retrieve chunk_text greek_chunks ''Alpha?'' = map ((!) greek_chunks) [2, 0, 3]"
proof -
  from retrieve_order [of chunk_text greek_chunks "''Alpha?''" greek_chunks "''Alpha?''"]
  have "\<exists>is. retrieve chunk_text greek_chunks ''Alpha?'' = map ((!) greek_chunks) is
         \<and> (\<forall>i \<in> set is. i < length greek_chunks)
         \<and> sorted_wrt (ranked_before (score_of chunk_text ''Alpha?'') greek_chunks) is"
    by blast
  then show ?thesis by (simp add: greek_retrieve)
qed

text \<open>
  Claim C7, as amended. The claim says that the question is split by a non-alphanumeric
  splitter. The handler splits on \<open>\W+\<close>, and \<open>\W\<close> leaves the underscore inside a
  word: the tokens are the maximal runs of ASCII letters, digits and underscores of the
  lower-cased question. With this the score is as claimed: tokens shorter than 3 characters
  are dropped, and the score is the sum, over the remaining tokens with their repetitions, of
  the number of matches of the token, taken literally, in the lower-cased text of the chunk
  (matches are counted from left to right without overlap, as a global regular expression
  does). For a question without an underscore the score is the one of the claim.
\<close>

theorem score_counts_tokens:
  "score_of t q c
     = sum_list (map (\<lambda>w. count_matches w (to_lower (t c)))
                     (filter (\<lambda>w. 3 \<le> length w) (question_words q)))
   \<and> (\<forall>w \<in> set (question_words q). w \<noteq> [] \<and> (\<forall>ch \<in> set w. is_word_char ch) \<and> to_lower w = w)
   \<and> (CHR ''_'' \<notin> set q \<longrightarrow> score_of t q c = spec_score q (t c))"
  by (auto simp: score_of_def chunk_score_sum question_words_props spec_score_no_underscore)

text \<open>
  Witness for C7: the question \<open>Alpha?\<close> and the chunk \<open>ALPHA alpha\<close>.
\<close>

theorem score_counts_tokens_witness:
  "CHR ''_'' \<notin> set ''Alpha?''
   \<and> ''alpha'' \<in> set (question_words ''Alpha?'')
   \<and> to_lower ''alpha'' = ''alpha''
   \<and> score_of chunk_text ''Alpha?'' (greek_chunks ! 2) = spec_score ''Alpha?'' (chunk_text (greek_chunks ! 2))"
proof -
  have u: "CHR ''_'' \<notin> set ''Alpha?''" by simp
  with score_counts_tokens [of chunk_text "''Alpha?''" "greek_chunks ! 2"] alpha_word
  show ?thesis by blast
qed

text \<open>
  Counterexample for C7 as stated: the question \<open>a_b\<close> is one token of three
  characters for the handler and scores 1 on the text \<open>A_B\<close>; split at non-alphanumeric
  characters it gives the tokens \<open>a\<close> and \<open>b\<close>, both dropped, and the score 0.
\<close>

theorem underscore_counterexample:
  "score_of chunk_text ''a_b'' \<lparr>chunk_id = ''17_0'', chunk_text = ''A_B''\<rparr> = 1
   \<and> spec_score ''a_b'' ''A_B'' = 0"
  by code_simp


section \<open>Properties of \<open>JSON.stringify\<close> and \<open>JSON.parse\<close>\<close>

subsection \<open>Strings\<close>

lemma char_eq_iff_of_char: "c = d \<longleftrightarrow> (of_char c :: nat) = of_char d"
  by (metis char_of_char)

lemma char_of_of_char_nat: "(of_char c :: nat) = n \<Longrightarrow> c = char_of n"
  by (metis char_of_char)

lemma of_char_less_256: "(of_char c :: nat) < 256"
  by (metis char_of_char of_char_of mod_less_divisor zero_less_numeral)

lemma hex_val_hex_digit: "d < 16 \<Longrightarrow> hex_val (hex_digit d) = Some d"
  by (auto simp: hex_val_def hex_digit_def Let_def)

lemma hex4_low:
  assumes "n < 32"
  shows "hex4 CHR ''0'' CHR ''0'' (hex_digit (n div 16)) (hex_digit (n mod 16)) = Some (char_of n)"
proof -
  have z: "hex_val CHR ''0'' = Some 0" by (simp add: hex_val_def)
  have a: "hex_val (hex_digit (n div 16)) = Some (n div 16)"
    using assms by (intro hex_val_hex_digit) simp
  have b: "hex_val (hex_digit (n mod 16)) = Some (n mod 16)"
    by (intro hex_val_hex_digit) simp
  show ?thesis by (simp add: hex4_def z a b)
qed

lemma char_of_codes:
  "char_of (34::nat) = CHR 0x22" "char_of (92::nat) = CHR 0x5C" "char_of (8::nat) = CHR 0x08"
  "char_of (9::nat) = CHR 0x09" "char_of (10::nat) = CHR 0x0A" "char_of (12::nat) = CHR 0x0C"
  "char_of (13::nat) = CHR 0x0D"
  by (simp_all add: char_eq_iff_of_char)

lemma parse_chars_escape:
  "parse_chars (escape_char c @ t) = map_option (\<lambda>(s, rest). (c # s, rest)) (parse_chars t)"
proof -
  define n where "n = (of_char c :: nat)"
  have c: "c = char_of n" by (simp add: n_def)
  consider "n = 34" | "n = 92" | "n = 8" | "n = 9" | "n = 10" | "n = 12" | "n = 13"
    | "n < 32" "n \<notin> {8, 9, 10, 12, 13}" | "32 \<le> n" "n \<noteq> 34" "n \<noteq> 92"
    by fastforce
  then show ?thesis
  proof cases
    case 8
    then have e: "escape_char c = [CHR 0x5C, CHR ''u'', CHR ''0'', CHR ''0'', hex_digit (n div 16), hex_digit (n mod 16)]"
      by (auto simp: escape_char_def n_def [symmetric] Let_def)
    show ?thesis unfolding e using hex4_low [OF 8(1)] by (simp add: c)
  next
    case 9
    then have e: "escape_char c = [c]"
      by (auto simp: escape_char_def n_def [symmetric] Let_def)
    have "c \<noteq> CHR 0x22" "c \<noteq> CHR 0x5C"
      using 9 by (auto simp: char_eq_iff_of_char n_def [symmetric])
    with 9 show ?thesis unfolding e by (simp add: n_def [symmetric])
  qed (simp_all add: escape_char_def n_def [symmetric] Let_def unescape_def c char_of_codes)
qed

lemma parse_chars_quoted:
  "parse_chars (concat (map escape_char s) @ CHR 0x22 # rest) = Some (s, rest)"
  by (induction s) (simp_all add: parse_chars_escape)

subsection \<open>Numbers\<close>

lemma is_digit_digit_char: "d < 10 \<Longrightarrow> is_digit (digit_char d)"
  by (simp add: is_digit_def digit_char_def)

lemma digit_char_zero: "d < 10 \<Longrightarrow> digit_char d = CHR ''0'' \<longleftrightarrow> d = 0"
  by (simp add: char_eq_iff_of_char digit_char_def)

lemma string_of_nat_digits: "c \<in> set (string_of_nat m) \<Longrightarrow> is_digit c"
proof (induction m rule: string_of_nat.induct)
  case (1 m)
  show ?case
  proof (cases "m < 10")
    case True
    with "1.prems" show ?thesis
      by (subst (asm) string_of_nat.simps) (simp add: is_digit_digit_char)
  next
    case False
    with "1.prems" have "c \<in> set (string_of_nat (m div 10)) \<or> c = digit_char (m mod 10)"
      by (subst (asm) string_of_nat.simps) auto
    then show ?thesis
    proof
      assume "c \<in> set (string_of_nat (m div 10))"
      with False show ?thesis by (rule "1.IH")
    next
      assume "c = digit_char (m mod 10)"
      then show ?thesis by (simp add: is_digit_digit_char)
    qed
  qed
qed

lemma string_of_nat_nonempty: "string_of_nat m \<noteq> []"
  by (subst string_of_nat.simps) simp

lemma string_of_nat_leading:
  "1 < length (string_of_nat m) \<Longrightarrow> hd (string_of_nat m) \<noteq> CHR ''0''"
proof (induction m rule: string_of_nat.induct)
  case (1 m)
  show ?case
  proof (cases "m < 10")
    case True
    with "1.prems" show ?thesis by (subst (asm) string_of_nat.simps) simp
  next
    case False
    have e: "string_of_nat m = string_of_nat (m div 10) @ [digit_char (m mod 10)]"
      using False by (subst string_of_nat.simps) simp
    have h: "hd (string_of_nat m) = hd (string_of_nat (m div 10))"
      unfolding e by (simp add: string_of_nat_nonempty)
    show ?thesis
    proof (cases "m div 10 < 10")
      case True
      from False have "m div 10 \<noteq> 0" by simp
      moreover have "string_of_nat (m div 10) = [digit_char (m div 10)]"
        using True by (subst string_of_nat.simps) simp
      ultimately show ?thesis unfolding h using True by (simp add: digit_char_zero)
    next
      case False
      then have "1 < length (string_of_nat (m div 10))"
        by (subst string_of_nat.simps) (simp add: string_of_nat_nonempty Suc_le_eq)
      with \<open>\<not> m < 10\<close> show ?thesis unfolding h by (rule "1.IH")
    qed
  qed
qed

lemma takeWhile_digits:
  assumes "value_end rest"
  shows "takeWhile is_digit (string_of_nat m @ rest) = string_of_nat m"
    and "dropWhile is_digit (string_of_nat m @ rest) = rest"
proof -
  have r: "takeWhile is_digit rest = []" "dropWhile is_digit rest = rest"
    using assms by (cases rest; simp add: value_end_def)+
  show "takeWhile is_digit (string_of_nat m @ rest) = string_of_nat m"
    by (simp add: takeWhile_append2 string_of_nat_digits r)
  show "dropWhile is_digit (string_of_nat m @ rest) = rest"
    by (simp add: dropWhile_append2 string_of_nat_digits r)
qed

lemma parse_digits_string_of_nat:
  assumes "value_end rest"
  shows "parse_digits (string_of_nat m @ rest) = Some (m, rest)"
proof -
  have "\<not> starts_fraction rest"
    using assms by (cases rest) (auto simp: value_end_def starts_fraction_def)
  then show ?thesis
    using string_of_nat_leading [of m]
    by (simp add: parse_digits_def takeWhile_digits [OF assms] string_of_nat_nonempty
        nat_of_string_of_nat Let_def)
qed

lemma hd_string_of_nat_digit: "is_digit (hd (string_of_nat m))"
  using string_of_nat_digits [of "hd (string_of_nat m)" m] by (simp add: string_of_nat_nonempty)

lemma parse_number_string_of_int:
  assumes "value_end rest"
  shows "parse_number (string_of_int n @ rest) = Some (JNum n, rest)"
proof (cases "n < 0")
  case True
  then show ?thesis
    by (simp add: parse_number_def string_of_int_def parse_digits_string_of_nat [OF assms])
next
  case False
  obtain c cs where s: "string_of_nat (nat n) = c # cs"
    using string_of_nat_nonempty [of "nat n"] by (cases "string_of_nat (nat n)") auto
  have "is_digit c" using hd_string_of_nat_digit [of "nat n"] by (simp add: s)
  then have "c \<noteq> CHR ''-''" by (auto simp: is_digit_def)
  moreover have "parse_digits (c # cs @ rest) = Some (nat n, rest)"
    using parse_digits_string_of_nat [OF assms, of "nat n"] by (simp add: s)
  ultimately show ?thesis
    using False by (simp add: parse_number_def string_of_int_def s)
qed

subsection \<open>Objects and white space\<close>

lemma obj_put_fresh: "k \<notin> fst ` set obj \<Longrightarrow> obj_put k v obj = obj @ [(k, v)]"
  by (induction obj) auto

lemma foldl_obj_put:
  "distinct (map fst (obj @ ms)) \<Longrightarrow>
   foldl (\<lambda>obj m. obj_put (fst m) (snd m) obj) obj ms = obj @ ms"
proof (induction ms arbitrary: obj)
  case Nil
  show ?case by simp
next
  case (Cons m ms)
  from Cons.prems have f: "fst m \<notin> fst ` set obj" by auto
  from Cons.prems have d: "distinct (map fst ((obj @ [m]) @ ms))" by auto
  have "obj_put (fst m) (snd m) obj = obj @ [m]" using obj_put_fresh [OF f] by simp
  then show ?case using Cons.IH [OF d] by simp
qed

lemma obj_of_members_distinct: "distinct (map fst ms) \<Longrightarrow> obj_of_members ms = ms"
  using foldl_obj_put [of "[]" ms] by (simp add: obj_of_members_def)

lemma ws_newline_indent: "c \<in> set (newline_indent gap ind) \<Longrightarrow> is_json_ws c"
  by (auto simp: newline_indent_def is_json_ws_def split: if_splits)

lemma skip_ws_append:
  "(\<And>c. c \<in> set w \<Longrightarrow> is_json_ws c) \<Longrightarrow> \<not> is_json_ws d \<Longrightarrow> skip_ws (w @ d # s) = d # s"
  by (simp add: skip_ws_def dropWhile_append2)

lemma skip_ws_newline_indent:
  "\<not> is_json_ws d \<Longrightarrow> skip_ws (newline_indent gap ind @ d # s) = d # s"
  by (rule skip_ws_append) (auto dest: ws_newline_indent)

lemma skip_ws_self: "\<not> is_json_ws d \<Longrightarrow> skip_ws (d # s) = d # s"
  by (simp add: skip_ws_def)

lemma not_ws_chars:
  "\<not> is_json_ws CHR '',''" "\<not> is_json_ws CHR '']''" "\<not> is_json_ws CHR ''}''"
  "\<not> is_json_ws CHR '':''" "\<not> is_json_ws CHR 0x22" "\<not> is_json_ws CHR ''[''" "\<not> is_json_ws CHR ''{''"
  by (simp_all add: is_json_ws_def)

lemma value_end_chars:
  "value_end (CHR '','' # s)" "value_end (CHR '']'' # s)" "value_end (CHR ''}'' # s)" "value_end []"
  by (simp_all add: value_end_def is_digit_def)

lemma value_end_newline_indent:
  "value_end (d # s) \<Longrightarrow> value_end (newline_indent gap ind @ d # s)"
  by (simp add: newline_indent_def value_end_def is_digit_def)

lemma hd_string_of_int: "\<exists>c cs. string_of_int n = c # cs \<and> (c = CHR ''-'' \<or> is_digit c)"
proof (cases "n < 0")
  case True
  then show ?thesis by (simp add: string_of_int_def)
next
  case False
  obtain c cs where s: "string_of_nat (nat n) = c # cs"
    using string_of_nat_nonempty [of "nat n"] by (cases "string_of_nat (nat n)") auto
  have "is_digit c" using hd_string_of_nat_digit [of "nat n"] by (simp add: s)
  with False s show ?thesis by (simp add: string_of_int_def)
qed

lemma stringify_head: "\<exists>c cs. stringify_at gap ind v = c # cs \<and> \<not> is_json_ws c"
proof (cases v)
  case (JNum n)
  from hd_string_of_int [of n] obtain c cs where "string_of_int n = c # cs" "c = CHR ''-'' \<or> is_digit c"
    by blast
  then show ?thesis using JNum by (auto simp: is_json_ws_def is_digit_def)
qed (auto simp: is_json_ws_def quote_def)

lemma stringify_nonempty: "0 < length (stringify_at gap ind v)"
  using stringify_head [of gap ind v] by auto

lemma hd_not_close: "hd (stringify_at gap i v) \<noteq> CHR '']''"
proof (cases v)
  case (JNum n)
  from hd_string_of_int [of n] obtain c cs where "string_of_int n = c # cs" "c = CHR ''-'' \<or> is_digit c"
    by blast
  then show ?thesis using JNum by (auto simp: is_digit_def)
qed (auto simp: quote_def)

subsection \<open>The round trip\<close>

lemma roundtripsD:
  "roundtrips v \<Longrightarrow> length (stringify_at gap ind v) < n \<Longrightarrow> value_end rest \<Longrightarrow>
   parse_value n (stringify_at gap ind v @ rest) = Some (v, rest)"
  by (simp add: roundtrips_def)

lemma roundtrips_leaf:
  "roundtrips JNull" "roundtrips (JBool b)" "roundtrips (JStr s)"
proof -
  show "roundtrips JNull"
    unfolding roundtrips_def
  proof (intro allI impI)
    fix gap ind n rest assume "length (stringify_at gap ind JNull) < n"
    then obtain k where "n = Suc k" by (cases n) auto
    then show "parse_value n (stringify_at gap ind JNull @ rest) = Some (JNull, rest)" by simp
  qed
  show "roundtrips (JBool b)"
    unfolding roundtrips_def
  proof (intro allI impI)
    fix gap ind n rest assume "length (stringify_at gap ind (JBool b)) < n"
    then obtain k where "n = Suc k" by (cases n) auto
    then show "parse_value n (stringify_at gap ind (JBool b) @ rest) = Some (JBool b, rest)" by simp
  qed
  show "roundtrips (JStr s)"
    unfolding roundtrips_def
  proof (intro allI impI)
    fix gap ind n rest assume "length (stringify_at gap ind (JStr s)) < n"
    then obtain k where "n = Suc k" by (cases n) auto
    then show "parse_value n (stringify_at gap ind (JStr s) @ rest) = Some (JStr s, rest)"
      by (simp add: quote_def parse_chars_quoted)
  qed
qed

lemma roundtrips_num: "roundtrips (JNum i)"
  unfolding roundtrips_def
proof (intro allI impI)
  fix gap ind n rest
  assume "length (stringify_at gap ind (JNum i)) < n" and e: "value_end rest"
  then obtain k where n: "n = Suc k" by (cases n) auto
  from hd_string_of_int [of i] obtain c cs where s: "string_of_int i = c # cs"
    and c: "c = CHR ''-'' \<or> is_digit c" by blast
  from c have d: "c \<noteq> CHR 0x22" "c \<noteq> CHR ''[''" "c \<noteq> CHR ''{''" "c \<noteq> CHR ''t''" "c \<noteq> CHR ''f''" "c \<noteq> CHR ''n''"
    by (auto simp: is_digit_def)
  have "parse_value (Suc k) (c # cs @ rest) = parse_number (c # cs @ rest)"
    using d by simp
  also have "\<dots> = Some (JNum i, rest)"
    using parse_number_string_of_int [OF e, of i] by (simp add: s)
  finally show "parse_value n (stringify_at gap ind (JNum i) @ rest) = Some (JNum i, rest)"
    by (simp add: n s)
qed

lemma parse_elements_join:
  assumes "\<And>x. x \<in> set xs \<Longrightarrow> roundtrips x" and "xs \<noteq> []"
    and "length (join (CHR '','' # newline_indent gap i) (map (stringify_at gap i) xs)
                 @ newline_indent gap j @ '']'') < m"
  shows "parse_elements m
           (join (CHR '','' # newline_indent gap i) (map (stringify_at gap i) xs)
              @ newline_indent gap j @ CHR '']'' # rest)
         = Some (xs, rest)"
  using assms
proof (induction xs arbitrary: m)
  case Nil
  then show ?case by simp
next
  case (Cons x xs)
  let ?S = "stringify_at gap i"
  let ?close = "newline_indent gap j @ CHR '']'' # rest"
  from Cons.prems(3) obtain k where m: "m = Suc k" by (cases m) auto
  have rx: "roundtrips x" using Cons.prems(1) by simp
  show ?case
  proof (cases xs)
    case Nil
    have "length (?S x) < k" using Cons.prems(3) by (simp add: m Nil)
    then have "parse_value k (?S x @ ?close) = Some (x, ?close)"
      by (rule roundtripsD [OF rx]) (simp add: value_end_newline_indent value_end_chars)
    then show ?thesis
      by (simp add: m Nil skip_ws_newline_indent not_ws_chars)
  next
    case (Cons y ys)
    let ?J = "join (CHR '','' # newline_indent gap i) (map ?S (y # ys))"
    obtain c cs where h: "?S y = c # cs" "\<not> is_json_ws c"
      using stringify_head [of gap i y] by blast
    then obtain js where j: "?J = c # js" by (cases ys) auto
    have l: "length (?S x) + 1 + length (?J @ newline_indent gap j @ '']'') < Suc k"
      using Cons.prems(3) by (simp add: m Cons)
    then have "length (?S x) < k" by simp
    then have "parse_value k (?S x @ CHR '','' # newline_indent gap i @ ?J @ ?close)
        = Some (x, CHR '','' # newline_indent gap i @ ?J @ ?close)"
      by (rule roundtripsD [OF rx]) (simp add: value_end_chars)
    moreover have "skip_ws (newline_indent gap i @ ?J @ ?close) = ?J @ ?close"
      unfolding j using h(2) skip_ws_newline_indent [of c gap i "js @ ?close"]
      by (simp add: j)
    moreover have "parse_elements k (?J @ ?close) = Some (y # ys, rest)"
    proof -
      have "length (?J @ newline_indent gap j @ '']'') < k" using l stringify_nonempty [of gap i x] by simp
      then show ?thesis
        using Cons.IH [of k] Cons.prems(1) by (simp add: Cons)
    qed
    ultimately show ?thesis
      by (simp add: m Cons skip_ws_self not_ws_chars)
  qed
qed

lemma member_line_head: "\<exists>cs. member_line gap i m = CHR 0x22 # cs"
  by (simp add: member_line_def quote_def)

lemma member_line_length: "length (stringify_at gap i (snd m)) + 3 \<le> length (member_line gap i m)"
  by (simp add: member_line_def quote_def)

lemma parse_members_step:
  assumes "roundtrips (snd m)" and "length (member_line gap i m) \<le> k" and "value_end tail"
  shows "parse_members (Suc k) (member_line gap i m @ tail)
         = (case skip_ws tail of
              [] \<Rightarrow> None
            | e # r4 \<Rightarrow>
                if e = CHR '','' then
                  map_option (\<lambda>(ms, rest). ((fst m, snd m) # ms, rest)) (parse_members k (skip_ws r4))
                else if e = CHR ''}'' then Some ([(fst m, snd m)], r4)
                else None)"
proof -
  let ?S = "stringify_at gap i (snd m)"
  let ?colon = "if gap = 0 then '':'' else '': ''"
  obtain c cs where h: "?S = c # cs" "\<not> is_json_ws c"
    using stringify_head [of gap i "snd m"] by blast
  have e: "member_line gap i m @ tail
      = CHR 0x22 # (concat (map escape_char (fst m)) @ CHR 0x22 # (?colon @ ?S @ tail))"
    by (simp add: member_line_def quote_def)
  have p: "parse_chars (concat (map escape_char (fst m)) @ CHR 0x22 # (?colon @ ?S @ tail))
      = Some (fst m, ?colon @ ?S @ tail)"
    by (rule parse_chars_quoted)
  have s1: "skip_ws (?colon @ ?S @ tail) = CHR '':'' # (if gap = 0 then [] else '' '') @ ?S @ tail"
    by (simp add: skip_ws_self not_ws_chars)
  have s2: "skip_ws ((if gap = 0 then [] else '' '') @ ?S @ tail) = ?S @ tail"
    using h by (simp add: skip_ws_def is_json_ws_def)
  have "length ?S < k" using assms(2) member_line_length [of gap i m] by simp
  then have v: "parse_value k (?S @ tail) = Some (snd m, tail)"
    using assms(3) by (rule roundtripsD [OF assms(1)])
  show ?thesis
    unfolding e by (simp only: parse_members.simps list.case if_False if_True simp_thms p option.case
        prod.case s1 s2 v)
qed

lemma parse_members_join:
  assumes "\<And>m. m \<in> set ms \<Longrightarrow> roundtrips (snd m)" and "ms \<noteq> []"
    and "length (join (CHR '','' # newline_indent gap i) (map (member_line gap i) ms)
                 @ newline_indent gap j @ ''}'') < n"
  shows "parse_members n
           (join (CHR '','' # newline_indent gap i) (map (member_line gap i) ms)
              @ newline_indent gap j @ CHR ''}'' # rest)
         = Some (ms, rest)"
  using assms
proof (induction ms arbitrary: n)
  case Nil
  then show ?case by simp
next
  case (Cons m ms)
  let ?M = "member_line gap i"
  let ?close = "newline_indent gap j @ CHR ''}'' # rest"
  from Cons.prems(3) obtain k where n: "n = Suc k" by (cases n) auto
  have rm: "roundtrips (snd m)" using Cons.prems(1) by simp
  show ?case
  proof (cases ms)
    case Nil
    have lm: "length (?M m) \<le> k" using Cons.prems(3) by (simp add: n Nil)
    have ve: "value_end ?close" by (simp add: value_end_newline_indent value_end_chars)
    have "parse_members (Suc k) (?M m @ ?close) = Some ([(fst m, snd m)], rest)"
      unfolding parse_members_step [OF rm lm ve]
      by (simp add: skip_ws_newline_indent not_ws_chars)
    then show ?thesis by (simp add: n Nil del: parse_members.simps)
  next
    case (Cons y ys)
    let ?J = "join (CHR '','' # newline_indent gap i) (map ?M (y # ys))"
    let ?tail = "CHR '','' # newline_indent gap i @ ?J @ ?close"
    obtain ys0 where h: "?M y = CHR 0x22 # ys0" using member_line_head [of gap i y] by blast
    then obtain js where j: "?J = CHR 0x22 # js" by (cases ys) auto
    have l: "length (?M m) + 1 + length (?J @ newline_indent gap j @ ''}'') < Suc k"
      using Cons.prems(3) by (simp add: n Cons)
    then have lm: "length (?M m) \<le> k" by simp
    have ve: "value_end ?tail" by (simp add: value_end_chars)
    have b: "skip_ws (newline_indent gap i @ ?J @ ?close) = ?J @ ?close"
      unfolding j using skip_ws_newline_indent [of "CHR 0x22" gap i "js @ ?close"]
      by (simp add: not_ws_chars)
    have c: "parse_members k (?J @ ?close) = Some (y # ys, rest)"
    proof -
      obtain ms0 where q: "?M m = CHR 0x22 # ms0" using member_line_head [of gap i m] by blast
      have "0 < length (?M m)" by (simp add: q)
      then have "length (?J @ newline_indent gap j @ ''}'') < k" using l by simp
      then show ?thesis
        using Cons.IH [of k] Cons.prems(1) by (simp add: Cons)
    qed
    have "parse_members (Suc k) (?M m @ ?tail) = Some ((fst m, snd m) # y # ys, rest)"
      unfolding parse_members_step [OF rm lm ve]
      by (simp only: skip_ws_self [OF not_ws_chars(1)] list.case if_True b c option.map prod.case
          refl if_True)
    then show ?thesis by (simp add: n Cons del: parse_members.simps)
  qed
qed

lemma map_member_line:
  "map (\<lambda>(k, v). quote k @ (if gap = 0 then '':'' else '': '') @ stringify_at gap i v) ms
     = map (member_line gap i) ms"
  by (simp add: member_line_def case_prod_unfold)

lemma roundtrips_wf: "wf_json v \<Longrightarrow> roundtrips v"
proof (induction v)
  case (JArr xs)
  then have ih: "\<And>x. x \<in> set xs \<Longrightarrow> roundtrips x" by (simp add: list_all_iff)
  show ?case
    unfolding roundtrips_def
  proof (intro allI impI)
    fix gap ind n rest
    assume len: "length (stringify_at gap ind (JArr xs)) < n" and "value_end rest"
    then obtain k where n: "n = Suc k" by (cases n) auto
    show "parse_value n (stringify_at gap ind (JArr xs) @ rest) = Some (JArr xs, rest)"
    proof (cases "xs = []")
      case True
      then show ?thesis by (simp add: n skip_ws_self not_ws_chars)
    next
      case False
      let ?i = "ind + gap"
      let ?J = "join (CHR '','' # newline_indent gap ?i) (map (stringify_at gap ?i) xs)"
      let ?close = "newline_indent gap ind @ CHR '']'' # rest"
      obtain x xs' where xs: "xs = x # xs'" using False by (cases xs) auto
      obtain c cs where "stringify_at gap ?i x = c # cs" and c: "\<not> is_json_ws c"
        using stringify_head [of gap ?i x] by blast
      then obtain js where j: "?J = c # js" unfolding xs by (cases xs') auto
      have nc: "c \<noteq> CHR '']''" using hd_not_close [of gap ?i x] \<open>stringify_at gap ?i x = c # cs\<close> by simp
      have "parse_elements k (?J @ ?close) = Some (xs, rest)"
      proof (rule parse_elements_join)
        show "\<And>x. x \<in> set xs \<Longrightarrow> roundtrips x" by (rule ih)
        show "xs \<noteq> []" by (rule False)
        show "length (?J @ newline_indent gap ind @ '']'') < k"
          using len False by (simp add: n)
      qed
      moreover have "skip_ws (newline_indent gap ?i @ ?J @ ?close) = ?J @ ?close"
        unfolding j using skip_ws_newline_indent [OF c, of gap ?i "js @ ?close"] by simp
      ultimately show ?thesis
        using False nc by (simp add: n j)
    qed
  qed
next
  case (JObj ms)
  then have ih: "\<And>m. m \<in> set ms \<Longrightarrow> roundtrips (snd m)"
    by (auto simp: list_all_iff snds.simps)
  from JObj.prems have d: "obj_of_members ms = ms" by (simp add: obj_of_members_distinct)
  show ?case
    unfolding roundtrips_def
  proof (intro allI impI)
    fix gap ind n rest
    assume len: "length (stringify_at gap ind (JObj ms)) < n" and "value_end rest"
    then obtain k where n: "n = Suc k" by (cases n) auto
    show "parse_value n (stringify_at gap ind (JObj ms) @ rest) = Some (JObj ms, rest)"
    proof (cases "ms = []")
      case True
      then show ?thesis by (simp add: n skip_ws_self not_ws_chars obj_of_members_def)
    next
      case False
      let ?i = "ind + gap"
      let ?J = "join (CHR '','' # newline_indent gap ?i) (map (member_line gap ?i) ms)"
      let ?close = "newline_indent gap ind @ CHR ''}'' # rest"
      obtain m ms' where ms: "ms = m # ms'" using False by (cases ms) auto
      obtain cs where "member_line gap ?i m = CHR 0x22 # cs"
        using member_line_head [of gap ?i m] by blast
      then obtain js where j: "?J = CHR 0x22 # js" unfolding ms by (cases ms') auto
      have "parse_members k (?J @ ?close) = Some (ms, rest)"
      proof (rule parse_members_join)
        show "\<And>m. m \<in> set ms \<Longrightarrow> roundtrips (snd m)" by (rule ih)
        show "ms \<noteq> []" by (rule False)
        show "length (?J @ newline_indent gap ind @ ''}'') < k"
          using len False by (simp add: n map_member_line)
      qed
      moreover have "skip_ws (newline_indent gap ?i @ ?J @ ?close) = ?J @ ?close"
        unfolding j using skip_ws_newline_indent [of "CHR 0x22" gap ?i "js @ ?close"]
        by (simp add: not_ws_chars)
      ultimately show ?thesis
        using False by (simp add: n j map_member_line d)
    qed
  qed
qed (simp_all add: roundtrips_leaf roundtrips_num)

lemma json_parse_stringify:
  assumes "wf_json v"
  shows "json_parse (json_stringify gap v) = Some v"
proof -
  let ?s = "stringify_at gap 0 v"
  obtain c cs where h: "?s = c # cs" "\<not> is_json_ws c"
    using stringify_head [of gap 0 v] by blast
  then have "skip_ws ?s = ?s" by (simp add: skip_ws_def)
  moreover have "parse_value (Suc (length ?s)) (?s @ []) = Some (v, [])"
    by (rule roundtripsD [OF roundtrips_wf [OF assms]]) (simp_all add: value_end_def)
  ultimately show ?thesis
    by (simp add: json_parse_def json_stringify_def skip_ws_def del: parse_value.simps)
qed


section \<open>Properties of the store and the handlers\<close>

lemma load_meta_written:
  assumes "json_parse data = Some meta"
  shows "load_meta pf (write_file_sync files (meta_path pf name) data) name = Inr (Inr meta)"
  using assms by (simp add: load_meta_def write_file_sync_def exists_sync_def)


lemma snd_upload:
  "snd (upload pf clock doc_id at files (Some file) t)
     = write_file_sync files (meta_path pf (file_filename file))
         (json_stringify 2 (meta_object doc_id file at (chunker clock t)))"
  by (simp add: upload_def Let_def)

lemma chunks_value_meta_object:
  "chunks_value (meta_object doc_id file at cs) = Inr (JArr (map chunk_object cs))"
  by (simp add: chunks_value_def meta_object_def)

lemma snd_file_qa: "snd (file_qa pf files req) = files"
  by (simp add: file_qa_def split: sum.splits)

lemma snd_file_quiz: "snd (file_quiz pf files req) = files"
  by (simp add: file_quiz_def split: sum.splits)

theorem empty_chunks_handling:
  assumes "load_meta pf files name = Inr (Inr meta)"
    and "chunks_value meta = Inr (JArr [])"
    and "name \<noteq> []" and "question \<noteq> []"
  shows "fst (file_quiz pf files (Some name)) = json_error 400 ''No extracted text available''
       \<and> fst (file_qa pf files \<lparr>qa_fileFilename = Some name, qa_question = Some question\<rparr>)
           = (case groq_client pf of
                None \<Rightarrow> json_error 500 ''Groq client not configured''
              | Some create \<Rightarrow>
                  (case get_chat_response pf (empty_context_request question) of
                     Inl e \<Rightarrow> json_error 500 (exn_string e)
                   | Inr result \<Rightarrow>
                       \<lparr>res_status = 200,
                        res_body = JObj [(''ok'', JBool True), (''text'', JStr (fst result)),
                                         (''raw'', snd result), (''usedChunks'', JArr [])]\<rparr>))"
proof
  show "fst (file_quiz pf files (Some name)) = json_error 400 ''No extracted text available''"
    using assms by (simp add: file_quiz_def file_quiz_body_def no_length_def)
  show "fst (file_qa pf files \<lparr>qa_fileFilename = Some name, qa_question = Some question\<rparr>)
           = (case groq_client pf of
                None \<Rightarrow> json_error 500 ''Groq client not configured''
              | Some create \<Rightarrow>
                  (case get_chat_response pf (empty_context_request question) of
                     Inl e \<Rightarrow> json_error 500 (exn_string e)
                   | Inr result \<Rightarrow>
                       \<lparr>res_status = 200,
                        res_body = JObj [(''ok'', JBool True), (''text'', JStr (fst result)),
                                         (''raw'', snd result), (''usedChunks'', JArr [])]\<rparr>))"
    using assms
    by (simp add: file_qa_def file_qa_body_def qa_context_def empty_context_request_def Let_def
          split: option.splits sum.splits)
qed

lemma wf_meta_object: "wf_json (meta_object doc_id file at cs)"
  by (simp add: meta_object_def chunk_object_def list_all_iff)

lemma parse_meta_object:
  "json_parse (json_stringify gap (meta_object doc_id file at cs)) = Some (meta_object doc_id file at cs)"
  by (rule json_parse_stringify [OF wf_meta_object])

lemma zip_parse: "json_parse (json_stringify 2 zip_meta) = Some zip_meta"
  unfolding zip_meta_def by (rule parse_meta_object)

lemma zip_load: "load_meta zip_platform zip_store ''1-notes.zip'' = Inr (Inr zip_meta)"
proof -
  have "chunker (const_clock 1) [] = []" by (simp add: chunker_def)
  moreover have "file_filename zip_file = ''1-notes.zip''" by (simp add: zip_file_def)
  ultimately have s: "zip_store = write_file_sync Map.empty (meta_path zip_platform ''1-notes.zip'')
      (json_stringify 2 zip_meta)"
    by (simp add: zip_store_def snd_upload zip_meta_def)
  show ?thesis unfolding s by (rule load_meta_written [OF zip_parse])
qed

lemma zip_chat:
  "get_chat_response zip_platform request
     = Inr (''I cannot find the answer in the provided document.'', JObj [])"
  by (simp add: get_chat_response_def zip_platform_def demo_platform_def)

lemma file_qa_used_chunks:
  assumes "load_meta pf files name = Inr (Inr meta)"
    and "chunks_value meta = Inr (JArr cs)"
    and "file_qa_body pf files \<lparr>qa_fileFilename = Some name, qa_question = Some q\<rparr>
           = Inr \<lparr>res_status = 200, res_body = b\<rparr>"
  shows "\<exists>us reply raw. map_exn used_chunk (retrieve text_of cs q) = Inr us
           \<and> b = JObj [(''ok'', JBool True), (''text'', JStr reply), (''raw'', raw), (''usedChunks'', JArr us)]"
  using assms
  by (auto simp: file_qa_body_def json_error_def Let_def split: if_splits sum.splits option.splits)

lemma txt_parse: "json_parse (json_stringify 2 txt_meta) = Some txt_meta"
  unfolding txt_meta_def by (rule parse_meta_object)

lemma txt_load: "load_meta txt_platform txt_store ''2-notes.txt'' = Inr (Inr txt_meta)"
proof -
  have "file_filename txt_file = ''2-notes.txt''" by (simp add: txt_file_def)
  then have s: "txt_store = write_file_sync Map.empty (meta_path txt_platform ''2-notes.txt'')
      (json_stringify 2 txt_meta)"
    by (simp add: txt_store_def snd_upload txt_meta_def)
  show ?thesis unfolding s by (rule load_meta_written [OF txt_parse])
qed

lemma txt_chunks_value: "chunks_value txt_meta = Inr (JArr txt_chunks)"
  by (simp add: txt_meta_def chunks_value_meta_object two_pars chunk_object_def txt_chunks_def)

lemma txt_retrieve:
  "retrieve text_of txt_chunks ''two?'' = [JObj [(''id'', JStr ''17_1''), (''text'', JStr ''two'')]]"
  by code_simp

lemma txt_texts: "map_exn text_or_empty txt_chunks = Inr [''one'', ''two'']"
  by code_simp

lemma txt_used:
  "map_exn used_chunk [JObj [(''id'', JStr ''17_1''), (''text'', JStr ''two'')]]
     = Inr [JObj [(''id'', JStr ''17_1''), (''preview'', JStr ''two'')]]"
  by code_simp

lemma txt_chat: "get_chat_response txt_platform request = Inr (''ok'', JObj [])"
  by (simp add: get_chat_response_def txt_platform_def demo_platform_def)

lemma txt_qa:
  "file_qa_body txt_platform txt_store \<lparr>qa_fileFilename = Some ''2-notes.txt'', qa_question = Some ''two?''\<rparr>
     = Inr \<lparr>res_status = 200,
            res_body = JObj [(''ok'', JBool True), (''text'', JStr ''ok''), (''raw'', JObj []),
                             (''usedChunks'', JArr [JObj [(''id'', JStr ''17_1''), (''preview'', JStr ''two'')]])]\<rparr>"
proof -
  have g: "groq_client txt_platform \<noteq> None"
    by (simp add: txt_platform_def demo_platform_def)
  show ?thesis
    using g by (auto simp add: file_qa_body_def txt_load txt_chunks_value txt_texts txt_retrieve txt_used txt_chat Let_def simp del: map_exn.simps)
qed








subsection \<open>Claims about the store and the handlers\<close>




text \<open>
  Claim C9, evaluated. A zip archive is uploaded, no text is extracted and the record is
  stored with an empty \<open>chunks\<close>. The quiz handler answers 400 with
  \<open>No extracted text available\<close>. The file-qa handler has no such check: it sends the
  prompt with an empty context to the language model and answers 200 with \<open>ok: true\<close>,
  the model's reply and no used chunks.
\<close>

theorem file_qa_empty_record:
  "fst (file_qa zip_platform zip_store
          \<lparr>qa_fileFilename = Some ''1-notes.zip'', qa_question = Some ''What is this about?''\<rparr>)
     = \<lparr>res_status = 200,
        res_body = JObj [(''ok'', JBool True),
                         (''text'', JStr ''I cannot find the answer in the provided document.''),
                         (''raw'', JObj []), (''usedChunks'', JArr [])]\<rparr>
   \<and> fst (file_quiz zip_platform zip_store (Some ''1-notes.zip''))
     = json_error 400 ''No extracted text available''"
proof -
  have c: "chunks_value zip_meta = Inr (JArr [])"
    by (simp add: zip_meta_def chunks_value_meta_object)
  have g: "groq_client zip_platform \<noteq> None"
    by (simp add: zip_platform_def demo_platform_def)
  from empty_chunks_handling [OF zip_load c, of "''What is this about?''"] g
  show ?thesis by (auto simp: zip_chat)
qed

text \<open>
  Claim C10. Every chunk \<open>retrieve\<close> returns is an element of the chunk sequence it was
  given, as it is stored, so with its id and text; the query handlers return the store they
  were given, and a record loads after a query as it did before. When file-qa answers 200,
  the chunks it reports are the previews of \<open>retrieve\<close> applied to the stored chunks.
\<close>

theorem retrieval_read_only:
  "set (retrieve t cs q) \<subseteq> set cs
   \<and> snd (file_qa pf files req) = files
   \<and> load_meta pf (snd (file_qa pf files req)) name = load_meta pf files name
   \<and> snd (file_quiz pf files req') = files
   \<and> (load_meta pf files name = Inr (Inr meta) \<and> chunks_value meta = Inr (JArr stored)
        \<and> file_qa_body pf files \<lparr>qa_fileFilename = Some name, qa_question = Some question\<rparr>
              = Inr \<lparr>res_status = 200, res_body = b\<rparr>
        \<longrightarrow> (\<exists>us reply raw.
               map_exn used_chunk (retrieve text_of stored question) = Inr us
               \<and> b = JObj [(''ok'', JBool True), (''text'', JStr reply), (''raw'', raw),
                           (''usedChunks'', JArr us)]))"
  using file_qa_used_chunks [of pf files name meta stored question b]
  by (simp add: set_retrieve snd_file_qa snd_file_quiz)

text \<open>
  Witness for C10: the stored text file of two lines and a question that matches the second.
\<close>

theorem retrieval_read_only_witness:
  "set (retrieve text_of txt_chunks ''two?'') \<subseteq> set txt_chunks
   \<and> snd (file_qa txt_platform txt_store
             \<lparr>qa_fileFilename = Some ''2-notes.txt'', qa_question = Some ''two?''\<rparr>)
      = txt_store
   \<and> load_meta txt_platform
        (snd (file_qa txt_platform txt_store
                \<lparr>qa_fileFilename = Some ''2-notes.txt'', qa_question = Some ''two?''\<rparr>))
        ''2-notes.txt''
      = Inr (Inr txt_meta)
   \<and> chunks_value txt_meta = Inr (JArr txt_chunks)
   \<and> file_qa_body txt_platform txt_store
        \<lparr>qa_fileFilename = Some ''2-notes.txt'', qa_question = Some ''two?''\<rparr>
      = Inr \<lparr>res_status = 200,
             res_body = JObj [(''ok'', JBool True), (''text'', JStr ''ok''), (''raw'', JObj []),
                              (''usedChunks'', JArr [JObj [(''id'', JStr ''17_1''), (''preview'', JStr ''two'')]])]\<rparr>
   \<and> (\<exists>us reply raw.
         map_exn used_chunk (retrieve text_of txt_chunks ''two?'') = Inr us
         \<and> JObj [(''ok'', JBool True), (''text'', JStr ''ok''), (''raw'', JObj []),
                  (''usedChunks'', JArr [JObj [(''id'', JStr ''17_1''), (''preview'', JStr ''two'')]])]
           = JObj [(''ok'', JBool True), (''text'', JStr reply), (''raw'', raw), (''usedChunks'', JArr us)])"
proof -
  note r = retrieval_read_only [of text_of txt_chunks "''two?''" txt_platform txt_store
      "\<lparr>qa_fileFilename = Some ''2-notes.txt'', qa_question = Some ''two?''\<rparr>"
      "''2-notes.txt''" "Some ''2-notes.txt''" txt_meta txt_chunks "''two?''"
      "JObj [(''ok'', JBool True), (''text'', JStr ''ok''), (''raw'', JObj []),
             (''usedChunks'', JArr [JObj [(''id'', JStr ''17_1''), (''preview'', JStr ''two'')]])]"]
  from r txt_load txt_chunks_value txt_qa show ?thesis by (simp only: simp_thms)
qed

end
